theory Spec2Isabelle
  imports Main "HOL-Library.Log_Nat" "HOL-Library.AList"
begin

section \<open>JavaScript values used by the garage viewer\<close>

subsection \<open>Numbers\<close>

text \<open>
  A JavaScript Number is an IEEE 754 double. The finite doubles are rational numbers, so a
  Number is modelled as a \<^typ>\<open>rat\<close> and every arithmetic operation rounds its exact result
  to the nearest double, ties to even (\<open>to_double\<close>). The numbers of this program are
  element counts and their quotients by three: they are zero or at least one third and far
  below the largest double, so neither subnormal results nor overflow to Infinity arise and
  neither is modelled.
\<close>

type_synonym number = rat

definition round_ties_even :: "rat \<Rightarrow> int" where
  "round_ties_even x =
     (let f = \<lfloor>x\<rfloor>; d = x - of_int f
      in if d < 1 / 2 then f
         else if 1 / 2 < d then f + 1
         else if even f then f else f + 1)"

text \<open>\<open>ilog2 x\<close> is the exponent of the binade of a positive \<open>x\<close>: \<open>2 powi e \<le> x < 2 powi (e + 1)\<close>.\<close>

definition ilog2 :: "rat \<Rightarrow> int" where
  "ilog2 x =
     (let k = bitlen (fst (quotient_of x)) - bitlen (snd (quotient_of x))
      in if 2 powi k \<le> x then k else k - 1)"

definition to_double :: "rat \<Rightarrow> number" where
  "to_double x =
     (if x = 0 then 0
      else let ulp = 2 powi (ilog2 \<bar>x\<bar> - 52)
           in of_int (round_ties_even (x / ulp)) * ulp)"

definition js_add :: "number \<Rightarrow> number \<Rightarrow> number" where
  "js_add a b = to_double (a + b)"

definition js_div :: "number \<Rightarrow> number \<Rightarrow> number" where
  "js_div a b = to_double (a / b)"

definition Math_floor :: "number \<Rightarrow> int" where
  "Math_floor x = \<lfloor>x\<rfloor>"

text \<open>\<open>Math.PI\<close> is the double nearest to \<open>\<pi>\<close>.\<close>

definition Math_PI :: number where
  "Math_PI = 884279719003555 / 281474976710656"

subsection \<open>Strings\<close>

definition digit_char :: "nat \<Rightarrow> char" where
  "digit_char d = ''0123456789'' ! d"

text \<open>\<open>String(n)\<close> for a non-negative integer: its decimal digits.\<close>

fun js_String :: "nat \<Rightarrow> string" where
  "js_String n = (if n < 10 then [digit_char n] else js_String (n div 10) @ [digit_char (n mod 10)])"

text \<open>\<open>s.padStart(n, c)\<close> with a pad string of one character.\<close>

definition padStart :: "nat \<Rightarrow> char \<Rightarrow> string \<Rightarrow> string" where
  "padStart n c s = replicate (n - length s) c @ s"

type_synonym vec3 = "number \<times> number \<times> number"

section \<open>config.js\<close>

text \<open>
  A van descriptor, as the entries of \<open>CONFIG.models.vans.list\<close> and the objects built by
  \<open>detectAvailableVans\<close> have it. The statically declared entry carries no \<open>number\<close>.
\<close>

record van_config =
  id' :: string
  name :: string
  filename :: string
  thumbnail :: string
  number :: "nat option"
  scale :: number
  position :: vec3
  rotation :: vec3

definition basePath :: string where
  "basePath = ''models/vans/''"

definition defaultScale :: number where
  "defaultScale = 1"

definition defaultPosition :: vec3 where
  "defaultPosition = (0, 42 / 100, 0)"

definition vans_list :: "van_config list" where
  "vans_list =
     [\<lparr>id' = ''van-001'', name = ''Van 001'', filename = ''van-001.glb'',
       thumbnail = ''thumbnails/van-001.jpg'', number = None, scale = 1,
       position = (0, 42 / 100, 0), rotation = (0, Math_PI, 0)\<rparr>]"

definition getFilename :: "nat \<Rightarrow> string" where
  "getFilename vanNumber =
     (let paddedNumber = padStart 3 CHR ''0'' (js_String vanNumber)
      in ''van-'' @ paddedNumber @ ''.glb'')"

definition getVanId :: "nat \<Rightarrow> string" where
  "getVanId vanNumber =
     (let paddedNumber = padStart 3 CHR ''0'' (js_String vanNumber)
      in ''van-'' @ paddedNumber)"

section \<open>The scene graph (three.js objects)\<close>

text \<open>
  Of a \<open>BufferGeometry\<close> the program reads \<open>index\<close> (null for unindexed geometry, else
  its \<open>count\<close>) and \<open>attributes.position.count\<close>, where the geometry may lack the
  position attribute.
\<close>

record geometry =
  index :: "nat option"
  position_count :: "nat option"

record node =
  obj_name :: string
  obj_position :: vec3
  obj_rotation :: vec3
  obj_scale :: vec3
  visible :: bool
  isMesh :: bool
  geometry :: "geometry option"
  castShadow :: bool
  receiveShadow :: bool

datatype object3d = Object3D (node: node) (children: "object3d list")

text \<open>\<open>Object3D.traverse(callback)\<close>: the callback on the object, then on every descendant.\<close>

fun traverse :: "(object3d \<Rightarrow> 's \<Rightarrow> 's) \<Rightarrow> object3d \<Rightarrow> 's \<Rightarrow> 's" where
  "traverse callback (Object3D n cs) s = fold (traverse callback) cs (callback (Object3D n cs) s)"

text \<open>A traversal whose callback assigns to fields of the visited object.\<close>

fun traverse_update :: "(node \<Rightarrow> node) \<Rightarrow> object3d \<Rightarrow> object3d" where
  "traverse_update f (Object3D n cs) = Object3D (f n) (map (traverse_update f) cs)"

text \<open>\<open>Object3D.clone()\<close> copies the whole subtree; on values the copy is the value itself.\<close>

definition clone :: "object3d \<Rightarrow> object3d" where
  "clone obj = obj"

text \<open>\<open>parent.add(child)\<close> appends to the children.\<close>

definition add :: "object3d \<Rightarrow> object3d \<Rightarrow> object3d" where
  "add child parent = Object3D (node parent) (children parent @ [child])"

section \<open>utils/ModelLoader.js\<close>

datatype error =
    NotFound string
  | NotLoaded string
  | LoaderError string
  | TypeError

record xhr =
  lengthComputable :: bool
  loaded :: nat
  total :: nat

record gltf =
  scene :: object3d
  gltf_animations :: "string list"
  gltf_userData :: string

text \<open>
  What \<open>GLTFLoader.load\<close> does for one path is the environment's choice: the progress
  events it reports, then either the decoded file or an error.
\<close>

record load_outcome =
  events :: "xhr list"
  result :: "error + gltf"

record load_options =
  opt_scale :: "number option"
  opt_position :: "vec3 option"
  opt_rotation :: "vec3 option"

record model_data =
  model :: object3d
  animations :: "string list"
  userData :: string
  fileSize :: nat

definition enable_shadows :: "node \<Rightarrow> node" where
  "enable_shadows child =
     (if isMesh child then child\<lparr>castShadow := True, receiveShadow := True\<rparr> else child)"

definition apply_transformations :: "load_options \<Rightarrow> node \<Rightarrow> node" where
  "apply_transformations options m =
     (let m1 = (case opt_scale options of
                  None \<Rightarrow> m
                | Some s \<Rightarrow> if s \<noteq> 0 then m\<lparr>obj_scale := (s, s, s)\<rparr> else m);
          m2 = (case opt_position options of None \<Rightarrow> m1 | Some p \<Rightarrow> m1\<lparr>obj_position := p\<rparr>)
      in case opt_rotation options of None \<Rightarrow> m2 | Some r \<Rightarrow> m2\<lparr>obj_rotation := r\<rparr>)"

text \<open>
  \<open>loadModel(path, options)\<close>, given what the loader does for \<open>path\<close>. The progress
  callback to the user interface is not modelled; the file size it captures is.
\<close>

definition loadModel :: "load_outcome \<Rightarrow> load_options \<Rightarrow> error + model_data" where
  "loadModel outcome options =
     (let fileSize = fold (\<lambda>x fs. if lengthComputable x then total x else fs) (events outcome) 0
      in case result outcome of
           Inl e \<Rightarrow> Inl e
         | Inr g \<Rightarrow>
             (let m = scene g;
                  m1 = Object3D (apply_transformations options (node m)) (children m);
                  m2 = traverse_update enable_shadows m1
              in Inr \<lparr>model = m2, animations = gltf_animations g,
                       userData = gltf_userData g, fileSize = fileSize\<rparr>))"

text \<open>
  \<open>Promise.all\<close> over promises that have all been started: each settles at some time with
  a value or an error. The result is every value, in the order of the promises, when all are
  fulfilled; otherwise the error of the promise that rejects first (the earlier promise
  when two reject at once).
\<close>

definition Promise_all :: "(nat \<times> (error + 'a)) list \<Rightarrow> error + 'a list" where
  "Promise_all ps =
     (let rejected = filter (\<lambda>p. isl (snd p)) ps
      in if rejected = [] then Inr (map (\<lambda>p. projr (snd p)) ps)
         else Inl (projl (snd (arg_min_list fst rejected))))"

record model_request =
  path :: string
  options :: load_options

text \<open>
  \<open>loadModels(modelConfigs)\<close>: \<open>loader i\<close> is when and how the load of the \<open>i\<close>-th
  config settles. The \<open>catch\<close> logs and rethrows.
\<close>

definition loadModels :: "(nat \<Rightarrow> nat \<times> load_outcome) \<Rightarrow> model_request list \<Rightarrow> error + model_data list" where
  "loadModels loader modelConfigs =
     (let promises = map (\<lambda>(i, config). (fst (loader i), loadModel (snd (loader i)) (options config)))
                         (enumerate 0 modelConfigs)
      in case Promise_all promises of
           Inr models \<Rightarrow> Inr models
         | Inl e \<Rightarrow> Inl e)"

record model_info =
  polygonCount :: int
  vertexCount :: number

text \<open>
  The callback of the traversal in \<open>getModelInfo\<close>, on its two counters. Reading the
  \<open>count\<close> of a position attribute that is missing throws a \<open>TypeError\<close>: for unindexed
  geometry in the line of the polygon count, for indexed geometry in the line of the vertex
  count. The exception ends the traversal: once the counters are lost, no later callback
  runs.
\<close>

definition count_geometry ::
    "object3d \<Rightarrow> error + number \<times> number \<Rightarrow> error + number \<times> number" where
  "count_geometry child acc =
     (case acc of
        Inl e \<Rightarrow> Inl e
      | Inr (polygons, vertices) \<Rightarrow>
          if isMesh (node child) then
            (case geometry (node child) of
               None \<Rightarrow> acc
             | Some g \<Rightarrow>
                 (case position_count g of
                    None \<Rightarrow> Inl TypeError
                  | Some n \<Rightarrow>
                      Inr ((case index g of
                              Some c \<Rightarrow> js_add polygons (js_div (of_nat c) 3)
                            | None \<Rightarrow> js_add polygons (js_div (of_nat n) 3)),
                           js_add vertices (of_nat n))))
          else acc)"

text \<open>
  \<open>getModelInfo(model)\<close>. The bounding box, which three.js computes from the vertex data, is
  left out.
\<close>

definition getModelInfo :: "object3d \<Rightarrow> error + model_info" where
  "getModelInfo m =
     (case traverse count_geometry m (Inr (0, 0)) of
        Inl e \<Rightarrow> Inl e
      | Inr (polygons, vertices) \<Rightarrow>
          Inr \<lparr>polygonCount = Math_floor polygons, vertexCount = vertices\<rparr>)"

section \<open>managers/VanManager.js\<close>

text \<open>
  The van models are objects that the manager, its cache and the scene share, and whose
  \<open>visible\<close> flag is assigned through any of these references. They live in a store
  (\<open>objects\<close>): a reference is an index into it, and every model the loader delivers is a
  new object. \<open>scene_children\<close> are the models added to the scene, so a model has a parent
  exactly when its reference is among them. \<open>requests\<close> are the network requests issued so
  far. The other fields are those of the class; the garage model plays no part here.
\<close>

type_synonym ref = nat

datatype request = HEAD string | GET string

record van_entry =
  model_ref :: ref
  config :: van_config
  entry_animations :: "string list"
  info :: model_info

record van_manager =
  objects :: "object3d list"
  scene_children :: "ref list"
  requests :: "request list"
  currentVan :: "ref option"
  vans :: "(string \<times> van_entry) list"
  currentVanId :: "string option"
  availableVans :: "van_config list"
  vansDetected :: bool
  wheelModel :: "object3d option"

definition wheelPath :: string where
  "wheelPath = ''models/vans/wheel/wheel.glb''"

text \<open>The constructor; it starts the load of the wheel model.\<close>

definition VanManager_init :: van_manager where
  "VanManager_init =
     \<lparr>objects = [], scene_children = [], requests = [GET wheelPath], currentVan = None,
      vans = [], currentVanId = None, availableVans = [], vansDetected = False,
      wheelModel = None\<rparr>"

subsection \<open>detectAvailableVans\<close>

text \<open>The outcome of \<open>fetch(vanPath, { method: 'HEAD' })\<close>: a response with its \<open>ok\<close> flag, or a rejection.\<close>

datatype fetch_result = Response bool | NetworkError

definition checkCount :: nat where
  "checkCount = 100"

definition vanPath :: "nat \<Rightarrow> string" where
  "vanPath i = basePath @ getFilename i"

text \<open>The descriptor that a check builds for index \<open>i\<close> when the response is ok.\<close>

definition candidate :: "nat \<Rightarrow> van_config" where
  "candidate i =
     \<lparr>id' = getVanId i,
      name = ''Van '' @ padStart 3 CHR ''0'' (js_String i),
      filename = getFilename i,
      thumbnail = ''thumbnails/van-'' @ padStart 3 CHR ''0'' (js_String i) @ ''.jpg'',
      number = Some i,
      scale = defaultScale,
      position = defaultPosition,
      rotation = (0, Math_PI, 0)\<rparr>"

text \<open>
  The handlers of one check, \<open>.then(response => ...)\<close> and \<open>.catch(() => null)\<close>: the
  descriptor when the response is ok, else null.
\<close>

definition check_result :: "nat \<Rightarrow> fetch_result \<Rightarrow> van_config option" where
  "check_result i outcome =
     (case outcome of
        Response ok \<Rightarrow> if ok then Some (candidate i) else None
      | NetworkError \<Rightarrow> None)"

text \<open>The promise of one check, with \<open>fetch\<close> the outcome of the request for each path.\<close>

definition checkVan :: "(string \<Rightarrow> fetch_result) \<Rightarrow> nat \<Rightarrow> van_config option" where
  "checkVan fetch i = check_result i (fetch (vanPath i))"

definition push_found :: "van_config option \<Rightarrow> van_config list \<Rightarrow> van_config list" where
  "push_found r detectedVans = (case r of Some v \<Rightarrow> detectedVans @ [v] | None \<Rightarrow> detectedVans)"

definition van_number :: "van_config \<Rightarrow> nat" where
  "van_number v = (case number v of Some n \<Rightarrow> n | None \<Rightarrow> 0)"

text \<open>
  A completed call of \<open>detectAvailableVans\<close>, with \<open>fetch\<close> the outcome of the check of each
  path. All checks are issued by the loop before any outcome is awaited.
\<close>

definition detectAvailableVans ::
    "(string \<Rightarrow> fetch_result) \<Rightarrow> van_manager \<Rightarrow> van_config list \<times> van_manager" where
  "detectAvailableVans fetch s =
     (if vansDetected s then (availableVans s, s)
      else
        let indices = [1..<Suc checkCount];
            s1 = s\<lparr>requests := requests s @ map (\<lambda>i. HEAD (vanPath i)) indices\<rparr>;
            results = map (checkVan fetch) indices;
            detectedVans = fold push_found results [];
            sortedVans = sort_key van_number detectedVans;
            s2 = s1\<lparr>availableVans := sortedVans, vansDetected := True\<rparr>
        in (availableVans s2, s2))"

text \<open>
  The same call at the grain of the event loop. It runs up to its \<open>await\<close>: by then the
  loop has started every check, and no check has settled (\<open>Checking\<close>, with one slot per
  index, all empty). The checks then settle one by one, in any order, each filling its own
  slot through its handlers. Once every check has settled \<open>Promise.all\<close> delivers the slots
  in the order of the indices and the call resumes.
\<close>

datatype detection = Detected "van_config list" | Checking "van_config option option list"

definition detectAvailableVans_start :: "van_manager \<Rightarrow> detection \<times> van_manager" where
  "detectAvailableVans_start s =
     (if vansDetected s then (Detected (availableVans s), s)
      else (Checking (replicate checkCount None),
            s\<lparr>requests := requests s @ map (\<lambda>i. HEAD (vanPath i)) [1..<Suc checkCount]\<rparr>))"

definition check_settled ::
    "nat \<Rightarrow> fetch_result \<Rightarrow> van_config option option list \<Rightarrow> van_config option option list" where
  "check_settled i outcome checks = checks[i - 1 := Some (check_result i outcome)]"

text \<open>The checks of the indices in \<open>order\<close> settle one after the other.\<close>

definition settle_checks ::
    "(string \<Rightarrow> fetch_result) \<Rightarrow> nat list \<Rightarrow> van_config option option list
      \<Rightarrow> van_config option option list" where
  "settle_checks fetch order checks = fold (\<lambda>i. check_settled i (fetch (vanPath i))) order checks"

definition detectAvailableVans_resume ::
    "van_config option option list \<Rightarrow> van_manager \<Rightarrow> van_config list \<times> van_manager" where
  "detectAvailableVans_resume checks s =
     (let results = map (\<lambda>c. case c of Some r \<Rightarrow> r | None \<Rightarrow> None) checks;
          detectedVans = fold push_found results [];
          sortedVans = sort_key van_number detectedVans;
          s2 = s\<lparr>availableVans := sortedVans, vansDetected := True\<rparr>
      in (availableVans s2, s2))"

subsection \<open>Wheels\<close>

text \<open>The load started by the constructor settles.\<close>

definition loadWheelModel :: "load_outcome \<Rightarrow> van_manager \<Rightarrow> van_manager" where
  "loadWheelModel outcome s =
     (case loadModel outcome
             \<lparr>opt_scale = Some 1, opt_position = Some (0, 0, 0), opt_rotation = Some (0, 0, 0)\<rparr> of
        Inr wheelData \<Rightarrow> s\<lparr>wheelModel := Some (model wheelData)\<rparr>
      | Inl e \<Rightarrow> s\<lparr>wheelModel := None\<rparr>)"

definition wheelPositions :: "string list" where
  "wheelPositions = [''FL'', ''FR'', ''RL'', ''RR'']"

definition collect_null :: "object3d \<Rightarrow> object3d list \<Rightarrow> object3d list" where
  "collect_null child foundNulls =
     (if obj_name (node child) \<in> set wheelPositions then foundNulls @ [child] else foundNulls)"

definition attach_wheel :: "object3d \<Rightarrow> object3d \<Rightarrow> object3d \<Rightarrow> object3d" where
  "attach_wheel wheel nullObject vanModel =
     (let wheelClone = clone wheel;
          placed = Object3D ((node wheelClone)
                     \<lparr>obj_position := obj_position (node nullObject),
                      obj_rotation := obj_rotation (node nullObject),
                      obj_scale := obj_scale (node nullObject)\<rparr>) (children wheelClone)
      in add placed vanModel)"

definition attachWheelsToVan :: "van_manager \<Rightarrow> object3d \<Rightarrow> object3d" where
  "attachWheelsToVan s vanModel =
     (case wheelModel s of
        None \<Rightarrow> vanModel
      | Some wheel \<Rightarrow>
          let foundNulls = traverse collect_null vanModel []
          in if length foundNulls = 0 then vanModel
             else fold (attach_wheel wheel) foundNulls vanModel)"

subsection \<open>Switching and loading\<close>

definition set_visible :: "ref \<Rightarrow> bool \<Rightarrow> object3d list \<Rightarrow> object3d list" where
  "set_visible r b objs = objs[r := Object3D ((node (objs ! r))\<lparr>visible := b\<rparr>) (children (objs ! r))]"

definition is_visible :: "van_manager \<Rightarrow> ref \<Rightarrow> bool" where
  "is_visible s r \<longleftrightarrow> r < length (objects s) \<and> visible (node (objects s ! r))"

definition show_current :: "bool \<Rightarrow> van_manager \<Rightarrow> van_manager" where
  "show_current b s =
     (case currentVan s of
        None \<Rightarrow> s
      | Some r \<Rightarrow> s\<lparr>objects := set_visible r b (objects s)\<rparr>)"

definition switchToVan :: "string \<Rightarrow> van_manager \<Rightarrow> (error + van_entry) \<times> van_manager" where
  "switchToVan truckId s =
     (case map_of (vans s) truckId of
        None \<Rightarrow> (Inl (NotLoaded truckId), s)
      | Some truckData \<Rightarrow>
          let s1 = show_current False s;
              s2 = s1\<lparr>currentVan := Some (model_ref truckData), currentVanId := Some truckId\<rparr>;
              s3 = (if model_ref truckData \<notin> set (scene_children s2)
                    then s2\<lparr>scene_children := scene_children s2 @ [model_ref truckData]\<rparr>
                    else s2);
              s4 = s3\<lparr>objects := set_visible (model_ref truckData) True (objects s3)\<rparr>
          in (Inr truckData, s4))"

definition find_config :: "string \<Rightarrow> van_manager \<Rightarrow> van_config option" where
  "find_config truckId s =
     (case find (\<lambda>t. id' t = truckId) vans_list of
        Some truckConfig \<Rightarrow> Some truckConfig
      | None \<Rightarrow> find (\<lambda>t. id' t = truckId) (availableVans s))"

definition truckPath :: "van_config \<Rightarrow> string" where
  "truckPath truckConfig = basePath @ filename truckConfig"

definition truck_options :: "van_config \<Rightarrow> load_options" where
  "truck_options truckConfig =
     \<lparr>opt_scale = Some (if scale truckConfig \<noteq> 0 then scale truckConfig else defaultScale),
      opt_position = Some (position truckConfig),
      opt_rotation = Some (rotation truckConfig)\<rparr>"

text \<open>
  \<open>loadVan\<close> runs up to its \<open>await\<close>, where it is either over (\<open>Done\<close>, with what it
  returned or threw) or suspended on the load it has started (\<open>Await\<close>, with the variables
  its continuation holds).
\<close>

record pending_load =
  pending_truckId :: string
  pending_truckConfig :: van_config

datatype started = Done "error + van_entry" | Await pending_load

definition loadVan_start :: "string \<Rightarrow> van_manager \<Rightarrow> started \<times> van_manager" where
  "loadVan_start truckId s =
     (let s1 = show_current False s
      in if map_of (vans s1) truckId \<noteq> None then
           (case switchToVan truckId s1 of (r, s2) \<Rightarrow> (Done r, s2))
         else
           (case find_config truckId s1 of
              None \<Rightarrow> (Done (Inl (NotFound truckId)), s1)
            | Some truckConfig \<Rightarrow>
                (Await \<lparr>pending_truckId = truckId, pending_truckConfig = truckConfig\<rparr>,
                 s1\<lparr>requests := requests s1 @ [GET (truckPath truckConfig)]\<rparr>)))"

text \<open>The \<open>catch\<close> block: show the current van again and rethrow.\<close>

definition loadVan_catch :: "error \<Rightarrow> van_manager \<Rightarrow> (error + van_entry) \<times> van_manager" where
  "loadVan_catch e s = (Inl e, show_current True s)"

text \<open>
  The continuation of \<open>loadVan\<close> once the loader has settled, all of it inside the
  \<open>try\<close> block. The delivered model is a new object, which enters the store when the cache
  takes it; an exception of \<open>getModelInfo\<close> is thrown before that.
  \<open>this.vans.get(truckId)\<close> at the end is the entry that \<open>switchToVan\<close> has just read.
\<close>

definition loadVan_settle ::
    "pending_load \<Rightarrow> load_outcome \<Rightarrow> van_manager \<Rightarrow> (error + van_entry) \<times> van_manager" where
  "loadVan_settle k outcome s =
     (let truckId = pending_truckId k; truckConfig = pending_truckConfig k
      in case loadModel outcome (truck_options truckConfig) of
           Inl e \<Rightarrow> loadVan_catch e s
         | Inr truckData \<Rightarrow>
             (let vanModel = attachWheelsToVan s (model truckData)
              in case getModelInfo vanModel of
                   Inl e \<Rightarrow> loadVan_catch e s
                 | Inr modelInfo \<Rightarrow>
                     (let r = length (objects s);
                          entry = \<lparr>model_ref = r, config = truckConfig,
                                   entry_animations = animations truckData,
                                   info = modelInfo\<rparr>;
                          s1 = s\<lparr>objects := objects s @ [vanModel],
                                 vans := AList.update truckId entry (vans s)\<rparr>
                      in case switchToVan truckId s1 of
                           (Inl e, s2) \<Rightarrow> loadVan_catch e s2
                         | (Inr stored, s2) \<Rightarrow> (Inr stored, s2))))"

text \<open>A call of \<open>loadVan\<close> that no other call interleaves with.\<close>

definition loadVan :: "load_outcome \<Rightarrow> string \<Rightarrow> van_manager \<Rightarrow> (error + van_entry) \<times> van_manager" where
  "loadVan outcome truckId s =
     (case loadVan_start truckId s of
        (Done r, s1) \<Rightarrow> (r, s1)
      | (Await k, s1) \<Rightarrow> loadVan_settle k outcome s1)"

definition getAvailableVans :: "van_manager \<Rightarrow> van_config list \<times> van_manager" where
  "getAvailableVans s =
     (if vansDetected s \<and> length (availableVans s) > 0 then (availableVans s, s)
      else (vans_list, s))"

subsection \<open>Calls and completions in any order\<close>

text \<open>
  The event loop runs one piece of code at a time: the start of a call of \<open>loadVan\<close>, the
  continuation of a suspended call when its load settles, the completion of the detection,
  or that of the wheel load. The observation points are the states between two events.
\<close>

datatype event =
    Call string
  | Settle nat load_outcome
  | Detect "string \<Rightarrow> fetch_result"
  | WheelSettled load_outcome

type_synonym system = "van_manager \<times> pending_load list"

fun step :: "system \<Rightarrow> event \<Rightarrow> system" where
  "step (s, ps) (Call truckId) =
     (case loadVan_start truckId s of
        (Done r, s1) \<Rightarrow> (s1, ps)
      | (Await k, s1) \<Rightarrow> (s1, ps @ [k]))"
| "step (s, ps) (Settle i outcome) =
     (if i < length ps then (snd (loadVan_settle (ps ! i) outcome s), take i ps @ drop (Suc i) ps)
      else (s, ps))"
| "step (s, ps) (Detect fetch) = (snd (detectAvailableVans fetch s), ps)"
| "step (s, ps) (WheelSettled outcome) = (loadWheelModel outcome s, ps)"

definition run :: "event list \<Rightarrow> system" where
  "run evs = foldl step (VanManager_init, []) evs"

definition visibleEntries :: "van_manager \<Rightarrow> (string \<times> van_entry) list" where
  "visibleEntries s = filter (\<lambda>(truckId, e). is_visible s (model_ref e)) (vans s)"

section \<open>The scene graph as a list\<close>

text \<open>The objects of a scene graph in the order in which a traversal visits them.\<close>

fun nodes :: "object3d \<Rightarrow> object3d list" where
  "nodes (Object3D n cs) = Object3D n cs # concat (map nodes cs)"

text \<open>The mount nodes of a van model: its objects named after a wheel position.\<close>

definition mount_nodes :: "object3d \<Rightarrow> object3d list" where
  "mount_nodes vanModel =
     filter (\<lambda>c. obj_name (node c) \<in> {''FL'', ''FR'', ''RL'', ''RR''}) (nodes vanModel)"

text \<open>A copy of the wheel with the position, rotation and scale of a mount node.\<close>

definition mounted :: "object3d \<Rightarrow> object3d \<Rightarrow> object3d" where
  "mounted wheel nullObject = Object3D ((node wheel)
      \<lparr>obj_position := obj_position (node nullObject),
       obj_rotation := obj_rotation (node nullObject),
       obj_scale := obj_scale (node nullObject)\<rparr>) (children wheel)"

text \<open>
  Every mesh geometry of the scene graph has a position attribute.
\<close>

definition has_position :: "object3d \<Rightarrow> bool" where
  "has_position c \<longleftrightarrow>
     (if isMesh (node c) then
        (case geometry (node c) of None \<Rightarrow> True | Some g \<Rightarrow> position_count g \<noteq> None)
      else True)"

definition has_positions :: "object3d \<Rightarrow> bool" where
  "has_positions m \<longleftrightarrow> list_all has_position (nodes m)"

text \<open>
  What one object contributes to the polygon count before the division by three: the count
  of the index of its geometry when it is a mesh with indexed geometry, the count of the
  positions when it is a mesh with unindexed geometry (taken as 0 where the attribute is
  missing, which \<open>has_positions\<close> excludes), nothing otherwise.
\<close>

definition mesh_count :: "object3d \<Rightarrow> nat list" where
  "mesh_count c =
     (if isMesh (node c) then
        (case geometry (node c) of
           None \<Rightarrow> []
         | Some g \<Rightarrow>
             [case index g of
                Some k \<Rightarrow> k
              | None \<Rightarrow> (case position_count g of Some n \<Rightarrow> n | None \<Rightarrow> 0)])
      else [])"

definition mesh_counts :: "object3d \<Rightarrow> nat list" where
  "mesh_counts m = concat (map mesh_count (nodes m))"

text \<open>The sum of the thirds of the counts, computed as JavaScript does, and floored.\<close>

definition floored_thirds :: "nat list \<Rightarrow> int" where
  "floored_thirds counts = Math_floor (foldl js_add 0 (map (\<lambda>k. js_div (of_nat k) 3) counts))"

text \<open>The same in exact arithmetic: the floor of the sum of the thirds as rational numbers.\<close>

definition exact_thirds :: "nat list \<Rightarrow> int" where
  "exact_thirds counts = \<lfloor>sum_list (map (\<lambda>k. of_nat k / 3) counts) :: rat\<rfloor>"

section \<open>The invariant of the cache\<close>

text \<open>
  The references held by the cache and by \<open>currentVan\<close> point into the store, and no two
  entries of the cache share a model.
\<close>

definition refs_ok :: "van_manager \<Rightarrow> bool" where
  "refs_ok s \<longleftrightarrow>
     distinct (map (\<lambda>p. model_ref (snd p)) (vans s))
     \<and> (\<forall>p \<in> set (vans s). model_ref (snd p) < length (objects s))
     \<and> (\<forall>r. currentVan s = Some r \<longrightarrow> r < length (objects s))"

text \<open>Moreover a cached model that is visible is the current van.\<close>

definition vm_inv :: "van_manager \<Rightarrow> bool" where
  "vm_inv s \<longleftrightarrow>
     refs_ok s
     \<and> (\<forall>p \<in> set (vans s). is_visible s (model_ref (snd p)) \<longrightarrow> currentVan s = Some (model_ref (snd p)))"

section \<open>Concrete environments\<close>

text \<open>Every check fails with a network error.\<close>

definition fetch_none :: "string \<Rightarrow> fetch_result" where
  "fetch_none p = NetworkError"

text \<open>Vans 1 and 2 exist, the check of van 3 fails, every other van is reported missing.\<close>

definition fetch_two :: "string \<Rightarrow> fetch_result" where
  "fetch_two p =
     (if p = ''models/vans/van-001.glb'' \<or> p = ''models/vans/van-002.glb'' then Response True
      else if p = ''models/vans/van-003.glb'' then NetworkError
      else Response False)"

text \<open>Reading every failed check as a response that is not ok.\<close>

definition errors_as_missing :: "(string \<Rightarrow> fetch_result) \<Rightarrow> string \<Rightarrow> fetch_result" where
  "errors_as_missing fetch p = (case fetch p of NetworkError \<Rightarrow> Response False | r \<Rightarrow> r)"

text \<open>A van with two mount nodes, one of them below its body mesh, and a wheel.\<close>

definition plain :: "string \<Rightarrow> vec3 \<Rightarrow> node" where
  "plain nm p = \<lparr>obj_name = nm, obj_position = p, obj_rotation = (0, 0, 0), obj_scale = (1, 1, 1),
     visible = True, isMesh = False, geometry = None, castShadow = False, receiveShadow = False\<rparr>"

definition mesh :: "string \<Rightarrow> geometry \<Rightarrow> node" where
  "mesh nm g = \<lparr>obj_name = nm, obj_position = (0, 0, 0), obj_rotation = (0, 0, 0), obj_scale = (1, 1, 1),
     visible = True, isMesh = True, geometry = Some g, castShadow = False, receiveShadow = False\<rparr>"

definition demo_wheel :: object3d where
  "demo_wheel = Object3D (plain ''wheel'' (0, 0, 0))
     [Object3D (mesh ''tyre'' \<lparr>index = Some 300, position_count = Some 120\<rparr>) []]"

definition demo_van :: object3d where
  "demo_van = Object3D (plain ''van'' (0, 0, 0))
     [Object3D (mesh ''body'' \<lparr>index = None, position_count = Some 300\<rparr>)
        [Object3D (plain ''FL'' (1, 0, 2)) []],
      Object3D (plain ''RR'' (- 1, 0, - 2)) []]"

text \<open>Two meshes of whole triangles, and three meshes that are no triangle lists.\<close>

definition two_meshes :: object3d where
  "two_meshes = Object3D (plain ''model'' (0, 0, 0))
     [Object3D (mesh ''a'' \<lparr>index = None, position_count = Some 300\<rparr>) [],
      Object3D (mesh ''b'' \<lparr>index = Some 600, position_count = Some 200\<rparr>) []]"

definition odd_meshes :: object3d where
  "odd_meshes = Object3D (plain ''model'' (0, 0, 0))
     [Object3D (mesh ''a'' \<lparr>index = None, position_count = Some 1\<rparr>) [],
      Object3D (mesh ''b'' \<lparr>index = None, position_count = Some 4\<rparr>) [],
      Object3D (mesh ''c'' \<lparr>index = None, position_count = Some 1\<rparr>) []]"

text \<open>A batch of three loads: the first succeeds last, the other two fail.\<close>

definition demo_requests :: "model_request list" where
  "demo_requests =
     [\<lparr>path = ''models/garage/garage.glb'', options = \<lparr>opt_scale = Some 1, opt_position = None, opt_rotation = None\<rparr>\<rparr>,
      \<lparr>path = ''models/vans/van-001.glb'', options = \<lparr>opt_scale = None, opt_position = None, opt_rotation = None\<rparr>\<rparr>,
      \<lparr>path = ''models/vans/van-002.glb'', options = \<lparr>opt_scale = None, opt_position = None, opt_rotation = None\<rparr>\<rparr>]"

definition demo_loader :: "nat \<Rightarrow> nat \<times> load_outcome" where
  "demo_loader i =
     (if i = 0 then (5, \<lparr>events = [], result = Inr \<lparr>scene = demo_van, gltf_animations = [], gltf_userData = []\<rparr>\<rparr>)
      else if i = 1 then (3, \<lparr>events = [], result = Inl (LoaderError ''404'')\<rparr>)
      else (1, \<lparr>events = [], result = Inl (LoaderError ''decode'')\<rparr>))"

text \<open>
  A load that delivers the demo van and a load that fails; a run in which two requests are
  in flight at once and complete in the opposite order; the manager after van 1 was loaded.
\<close>

definition demo_outcome :: load_outcome where
  "demo_outcome =
     \<lparr>events = [\<lparr>lengthComputable = True, loaded = 10, total = 10\<rparr>],
      result = Inr \<lparr>scene = demo_van, gltf_animations = [], gltf_userData = []\<rparr>\<rparr>"

definition failed_outcome :: load_outcome where
  "failed_outcome = \<lparr>events = [], result = Inl (LoaderError ''network'')\<rparr>"

definition demo_events :: "event list" where
  "demo_events =
     [Detect fetch_two, Call ''van-001'', Call ''van-002'',
      Settle 1 demo_outcome, Settle 0 demo_outcome]"

definition van_001_loaded :: van_manager where
  "van_001_loaded = snd (loadVan demo_outcome ''van-001'' VanManager_init)"




section \<open>The asset path convention\<close>

declare js_String.simps [simp del]

lemma digit_char_0: "digit_char 0 = CHR ''0''"
  by (simp add: digit_char_def)

lemma js_String_lt10: "n < 10 \<Longrightarrow> js_String n = [digit_char n]"
  by (subst js_String.simps) simp

lemma js_String_ge10: "10 \<le> n \<Longrightarrow> js_String n = js_String (n div 10) @ [digit_char (n mod 10)]"
  by (subst js_String.simps) simp

lemma pad3_digits:
  assumes "i < 1000"
  shows "padStart 3 CHR ''0'' (js_String i) =
    [digit_char (i div 100), digit_char (i div 10 mod 10), digit_char (i mod 10)]"
proof -
  consider "i < 10" | "10 \<le> i" "i < 100" | "100 \<le> i"
    by linarith
  then show ?thesis
  proof cases
    case 1
    then have "i div 100 = 0" "i div 10 = 0" by simp_all
    with 1 show ?thesis
      by (simp add: js_String_lt10 padStart_def digit_char_0 numeral_3_eq_3)
  next
    case 2
    then have "i div 100 = 0" "i div 10 < 10" "i div 10 mod 10 = i div 10" by simp_all
    with 2 show ?thesis
      by (simp add: js_String_ge10 js_String_lt10 padStart_def digit_char_0)
  next
    case 3
    with assms have "10 \<le> i div 10" "i div 10 div 10 < 10" "i div 10 div 10 = i div 100"
      by (simp_all add: div_mult2_eq[symmetric])
    with 3 show ?thesis
      by (simp add: js_String_ge10 js_String_lt10 padStart_def)
  qed
qed

text \<open>
  Claim C8, as the code has it. For every index the van id is \<open>van-\<close> followed by the index
  padded with zeros to three digits, the filename is the id followed by \<open>.glb\<close>, and the
  path that is checked is the base path followed by the filename. Below 1000 the padded index
  is exactly the hundreds, tens and units digits.
\<close>

theorem asset_path_convention:
  "getVanId i = ''van-'' @ padStart 3 CHR ''0'' (js_String i)
   \<and> getFilename i = getVanId i @ ''.glb''
   \<and> vanPath i = basePath @ getFilename i
   \<and> (i < 1000 \<longrightarrow> padStart 3 CHR ''0'' (js_String i) =
         [digit_char (i div 100), digit_char (i div 10 mod 10), digit_char (i mod 10)])"
  by (simp add: getVanId_def getFilename_def vanPath_def pad3_digits)

theorem asset_path_convention_witness:
  "getVanId 7 = ''van-007'' \<and> getFilename 7 = ''van-007.glb''
   \<and> vanPath 7 = ''models/vans/van-007.glb''"
  using asset_path_convention [of 7] by (simp add: digit_char_def basePath_def)

text \<open>
  Claim C8 as stated gives the id the prefix \<open>vehicle-\<close>. The id of index 1 is
  \<open>van-001\<close>, which does not start so.
\<close>

theorem vehicle_prefix_counterexample:
  "getVanId 1 \<noteq> ''vehicle-'' @ padStart 3 CHR ''0'' (js_String 1)"
  by (simp add: getVanId_def)

section \<open>Detection of the available vans\<close>

lemma checkVan_cases:
  "checkVan fetch i = (if fetch (vanPath i) = Response True then Some (candidate i) else None)"
  by (auto simp: checkVan_def check_result_def split: fetch_result.splits)

lemma fold_push_found:
  "fold push_found (map (checkVan fetch) is) acc =
   acc @ map candidate (filter (\<lambda>i. fetch (vanPath i) = Response True) is)"
  by (induction "is" arbitrary: acc) (simp_all add: push_found_def checkVan_cases)

lemma van_number_candidate: "van_number (candidate i) = i"
  by (simp add: van_number_def candidate_def)

lemma map_number_candidates: "map van_number (map candidate is) = is"
  by (induction "is") (simp_all add: van_number_candidate)

text \<open>The survivors come out of the checks in ascending order, so the sort moves nothing.\<close>

lemma sort_candidates:
  assumes "sorted is"
  shows "sort_key van_number (map candidate (filter P is)) = map candidate (filter P is)"
proof (rule sort_key_id_if_sorted)
  have "sorted (filter P is)" using assms by (rule sorted_wrt_filter)
  then show "sorted (map van_number (map candidate (filter P is)))"
    by (simp only: map_number_candidates)
qed

lemma detect_first:
  assumes "\<not> vansDetected s"
  shows "detectAvailableVans fetch s =
    (map candidate (filter (\<lambda>i. fetch (vanPath i) = Response True) [1..<Suc checkCount]),
     s\<lparr>requests := requests s @ map (\<lambda>i. HEAD (vanPath i)) [1..<Suc checkCount],
       availableVans := map candidate (filter (\<lambda>i. fetch (vanPath i) = Response True) [1..<Suc checkCount]),
       vansDetected := True\<rparr>)"
proof -
  have "sorted [1..<Suc checkCount]" by (rule sorted_upt)
  then show ?thesis
    using assms unfolding detectAvailableVans_def Let_def fold_push_found
    by (simp add: sort_candidates del: upt_Suc)
qed

lemma detect_done:
  "vansDetected (snd (detectAvailableVans fetch s)) \<and>
   availableVans (snd (detectAvailableVans fetch s)) = fst (detectAvailableVans fetch s)"
proof (cases "vansDetected s")
  case True
  then show ?thesis by (simp add: detectAvailableVans_def)
next
  case False
  then show ?thesis by (simp add: detect_first)
qed

lemma errors_as_missing_found:
  "(errors_as_missing fetch p = Response True) = (fetch p = Response True)"
  by (simp add: errors_as_missing_def split: fetch_result.splits)

lemma vanPath_digits:
  assumes "i < 1000"
  shows "vanPath i = ''models/vans/van-'' @
    [digit_char (i div 100), digit_char (i div 10 mod 10), digit_char (i mod 10)] @ ''.glb''"
  using pad3_digits [OF assms] by (simp add: vanPath_def basePath_def getFilename_def)

lemma check_result_checkVan: "check_result i (fetch (vanPath i)) = checkVan fetch i"
  by (simp add: checkVan_def)

lemma length_fold_check_settled:
  "length (fold (\<lambda>i. check_settled i (f i)) order checks) = length checks"
  by (induction order arbitrary: checks) (simp_all add: check_settled_def)

lemma nth_fold_check_settled:
  assumes "0 \<notin> set order" and "j < length checks"
  shows "fold (\<lambda>i. check_settled i (f i)) order checks ! j =
     (if Suc j \<in> set order then Some (check_result (Suc j) (f (Suc j))) else checks ! j)"
  using assms
proof (induction order arbitrary: checks)
  case Nil
  then show ?case by simp
next
  case (Cons i order)
  from Cons.prems have i: "0 < i" and rest: "0 \<notin> set order" by auto
  have len: "j < length (check_settled i (f i) checks)"
    using Cons.prems(2) by (simp add: check_settled_def)
  have one: "check_settled i (f i) checks ! j =
      (if Suc j = i then Some (check_result (Suc j) (f (Suc j))) else checks ! j)"
    using i Cons.prems(2) by (auto simp: check_settled_def nth_list_update)
  show ?case
    using Cons.IH [OF rest len] one by auto
qed

lemma all_checks_settled:
  assumes "set order = {1..checkCount}"
  shows "settle_checks fetch order (replicate checkCount None) =
         map (\<lambda>i. Some (checkVan fetch i)) [1..<Suc checkCount]"
  unfolding settle_checks_def
proof (rule nth_equalityI)
  show "length (fold (\<lambda>i. check_settled i (fetch (vanPath i))) order (replicate checkCount None)) =
        length (map (\<lambda>i. Some (checkVan fetch i)) [1..<Suc checkCount])"
    by (simp add: length_fold_check_settled)
next
  fix j
  assume "j < length (fold (\<lambda>i. check_settled i (fetch (vanPath i))) order (replicate checkCount None))"
  then have j: "j < checkCount" by (simp add: length_fold_check_settled)
  from assms have z: "0 \<notin> set order" by simp
  from assms j have m: "Suc j \<in> set order" by simp
  have "fold (\<lambda>i. check_settled i (fetch (vanPath i))) order (replicate checkCount None) ! j =
        Some (check_result (Suc j) (fetch (vanPath (Suc j))))"
    using nth_fold_check_settled [OF z, of j "replicate checkCount None" "\<lambda>i. fetch (vanPath i)"] j m
    by simp
  moreover have "map (\<lambda>i. Some (checkVan fetch i)) [1..<Suc checkCount] ! j = Some (checkVan fetch (Suc j))"
    using j by (simp add: nth_map_upt del: upt_Suc)
  ultimately show "fold (\<lambda>i. check_settled i (fetch (vanPath i))) order (replicate checkCount None) ! j =
        map (\<lambda>i. Some (checkVan fetch i)) [1..<Suc checkCount] ! j"
    by (simp add: check_result_checkVan)
qed

lemma resume_settled:
  assumes "\<not> vansDetected s"
  shows "detectAvailableVans_resume (map (\<lambda>i. Some (checkVan fetch i)) [1..<Suc checkCount])
           (snd (detectAvailableVans_start s)) = detectAvailableVans fetch s"
proof -
  have m: "map (\<lambda>c. case c of Some r \<Rightarrow> r | None \<Rightarrow> None)
          (map (\<lambda>i. Some (checkVan fetch i)) [1..<Suc checkCount]) =
        map (checkVan fetch) [1..<Suc checkCount]"
    by (simp add: comp_def del: upt_Suc)
  show ?thesis
    unfolding detectAvailableVans_resume_def Let_def m
    using assms
    by (simp add: detectAvailableVans_start_def detectAvailableVans_def Let_def del: upt_Suc)
qed

text \<open>
  Claim C4. A call of \<open>detectAvailableVans\<close> that follows a completed one returns what the
  first call returned, in the same order, whatever the checks would answer now, and leaves
  the manager as it was: in particular it adds no request to those issued so far.
\<close>

theorem detectAvailableVans_memoized:
  "fst (detectAvailableVans fetch2 (snd (detectAvailableVans fetch1 s))) = fst (detectAvailableVans fetch1 s)
   \<and> snd (detectAvailableVans fetch2 (snd (detectAvailableVans fetch1 s))) = snd (detectAvailableVans fetch1 s)
   \<and> requests (snd (detectAvailableVans fetch2 (snd (detectAvailableVans fetch1 s)))) =
       requests (snd (detectAvailableVans fetch1 s))"
  using detect_done [of fetch1 s] by (simp add: detectAvailableVans_def)

theorem detectAvailableVans_memoized_witness:
  "fst (detectAvailableVans fetch_none (snd (detectAvailableVans fetch_two VanManager_init))) =
     [candidate 1, candidate 2]
   \<and> length (requests (snd (detectAvailableVans fetch_none (snd (detectAvailableVans fetch_two VanManager_init))))) = 101"
proof -
  have "fst (detectAvailableVans fetch_two VanManager_init) = [candidate 1, candidate 2]"
    by code_simp
  moreover have "length (requests (snd (detectAvailableVans fetch_two VanManager_init))) = 101"
    by code_simp
  ultimately show ?thesis
    using detectAvailableVans_memoized [of fetch_none fetch_two VanManager_init] by simp
qed

text \<open>
  Claim C6. A first call of \<open>detectAvailableVans\<close> has, when it reaches its \<open>await\<close>,
  issued one \<open>HEAD\<close> request for every index from 1 to \<open>checkCount\<close>, each for the path
  with the three-digit number of the index, while no check has settled yet: the checks are all
  in flight together. In whatever order the checks then settle, every slot ends up with the
  result of its own check, and the resumed call returns what the completed call returns: the
  descriptors of exactly the indices whose check answered ok, in strictly ascending order of
  their number. A check that fails counts as a van that is missing: reading every failure as
  a response that is not ok gives the same result, and the result is a list in every case.
\<close>

theorem detectAvailableVans_probe:
  assumes "\<not> vansDetected s"
  shows "fst (detectAvailableVans fetch s) =
           map candidate (filter (\<lambda>i. fetch (vanPath i) = Response True) [1..<Suc checkCount])
       \<and> requests (snd (detectAvailableVans fetch s)) =
           requests s @ map (\<lambda>i. HEAD (''models/vans/van-'' @
             [digit_char (i div 100), digit_char (i div 10 mod 10), digit_char (i mod 10)] @ ''.glb''))
             [1..<Suc checkCount]
       \<and> sorted_wrt (<) (map van_number (fst (detectAvailableVans fetch s)))
       \<and> set (map van_number (fst (detectAvailableVans fetch s))) \<subseteq> {1..checkCount}
       \<and> fst (detectAvailableVans (errors_as_missing fetch) s) = fst (detectAvailableVans fetch s)
       \<and> detectAvailableVans_start s =
           (Checking (replicate checkCount None),
            s\<lparr>requests := requests s @ map (\<lambda>i. HEAD (''models/vans/van-'' @
              [digit_char (i div 100), digit_char (i div 10 mod 10), digit_char (i mod 10)] @ ''.glb''))
              [1..<Suc checkCount]\<rparr>)
       \<and> (set order = {1..checkCount} \<longrightarrow>
            settle_checks fetch order (replicate checkCount None) =
              map (\<lambda>i. Some (checkVan fetch i)) [1..<Suc checkCount]
            \<and> detectAvailableVans_resume (settle_checks fetch order (replicate checkCount None))
                (snd (detectAvailableVans_start s)) = detectAvailableVans fetch s)"
proof -
  let ?found = "filter (\<lambda>i. fetch (vanPath i) = Response True) [1..<Suc checkCount]"
  have res: "fst (detectAvailableVans fetch s) = map candidate ?found"
    using assms by (simp add: detect_first)
  have "sorted_wrt (<) ?found"
    by (rule sorted_wrt_filter) (rule sorted_wrt_upt)
  then have asc: "sorted_wrt (<) (map van_number (fst (detectAvailableVans fetch s)))"
    by (simp only: res map_number_candidates)
  have "set ?found \<subseteq> {1..checkCount}" by auto
  then have rng: "set (map van_number (fst (detectAvailableVans fetch s))) \<subseteq> {1..checkCount}"
    by (simp only: res map_number_candidates)
  have err: "fst (detectAvailableVans (errors_as_missing fetch) s) = fst (detectAvailableVans fetch s)"
    using assms by (simp add: detect_first errors_as_missing_found)
  have paths: "map (\<lambda>i. HEAD (vanPath i)) [1..<Suc checkCount] =
        map (\<lambda>i. HEAD (''models/vans/van-'' @
             [digit_char (i div 100), digit_char (i div 10 mod 10), digit_char (i mod 10)] @ ''.glb''))
             [1..<Suc checkCount]"
    by (rule map_cong) (simp_all add: vanPath_digits checkCount_def)
  then have req: "requests (snd (detectAvailableVans fetch s)) =
           requests s @ map (\<lambda>i. HEAD (''models/vans/van-'' @
             [digit_char (i div 100), digit_char (i div 10 mod 10), digit_char (i mod 10)] @ ''.glb''))
             [1..<Suc checkCount]"
    using assms by (simp add: detect_first)
  have start: "detectAvailableVans_start s =
           (Checking (replicate checkCount None),
            s\<lparr>requests := requests s @ map (\<lambda>i. HEAD (''models/vans/van-'' @
              [digit_char (i div 100), digit_char (i div 10 mod 10), digit_char (i mod 10)] @ ''.glb''))
              [1..<Suc checkCount]\<rparr>)"
    using assms paths by (simp add: detectAvailableVans_start_def del: upt_Suc)
  have settle: "settle_checks fetch order (replicate checkCount None) =
              map (\<lambda>i. Some (checkVan fetch i)) [1..<Suc checkCount]
            \<and> detectAvailableVans_resume (settle_checks fetch order (replicate checkCount None))
                (snd (detectAvailableVans_start s)) = detectAvailableVans fetch s"
    if "set order = {1..checkCount}"
    using all_checks_settled [OF that, of fetch] resume_settled [OF assms, of fetch] by simp
  from res req asc rng err start settle show ?thesis by blast
qed

theorem detectAvailableVans_probe_witness:
  "\<not> vansDetected VanManager_init
   \<and> fst (detectAvailableVans fetch_two VanManager_init) = [candidate 1, candidate 2]
   \<and> fst (detectAvailableVans (errors_as_missing fetch_two) VanManager_init) = [candidate 1, candidate 2]
   \<and> length (requests (snd (detectAvailableVans fetch_two VanManager_init))) = 101
   \<and> fst (detectAvailableVans_start VanManager_init) = Checking (replicate checkCount None)
   \<and> length (requests (snd (detectAvailableVans_start VanManager_init))) = 101
   \<and> set (rev [1..<Suc checkCount]) = {1..checkCount}
   \<and> fst (detectAvailableVans_resume
          (settle_checks fetch_two (rev [1..<Suc checkCount]) (replicate checkCount None))
          (snd (detectAvailableVans_start VanManager_init))) = [candidate 1, candidate 2]"
proof -
  have h: "\<not> vansDetected VanManager_init" by (simp add: VanManager_init_def)
  have o: "set (rev [1..<Suc checkCount]) = {1..checkCount}" by auto
  note probe = detectAvailableVans_probe [OF h,
      where fetch = fetch_two and order = "rev [1..<Suc checkCount]"]
  note result = probe [THEN conjunct1]
  note issued = probe [THEN conjunct2, THEN conjunct1]
  note errors = probe [THEN conjunct2, THEN conjunct2, THEN conjunct2, THEN conjunct2, THEN conjunct1]
  note started = probe [THEN conjunct2, THEN conjunct2, THEN conjunct2, THEN conjunct2,
      THEN conjunct2, THEN conjunct1]
  note settled = probe [THEN conjunct2, THEN conjunct2, THEN conjunct2, THEN conjunct2,
      THEN conjunct2, THEN conjunct2, THEN mp, OF o]
  have found: "filter (\<lambda>i. fetch_two (vanPath i) = Response True) [1..<Suc checkCount] = [1, 2]"
    by code_simp
  have r: "fst (detectAvailableVans fetch_two VanManager_init) = [candidate 1, candidate 2]"
    unfolding result found by simp
  have e: "fst (detectAvailableVans (errors_as_missing fetch_two) VanManager_init) =
      [candidate 1, candidate 2]"
    unfolding errors by (rule r)
  have n: "length (requests (snd (detectAvailableVans fetch_two VanManager_init))) = 101"
    unfolding issued by (simp add: VanManager_init_def checkCount_def)
  have st: "fst (detectAvailableVans_start VanManager_init) = Checking (replicate checkCount None)"
    unfolding started by simp
  have sn: "length (requests (snd (detectAvailableVans_start VanManager_init))) = 101"
    unfolding started by (simp add: VanManager_init_def checkCount_def)
  have re: "fst (detectAvailableVans_resume
          (settle_checks fetch_two (rev [1..<Suc checkCount]) (replicate checkCount None))
          (snd (detectAvailableVans_start VanManager_init))) = [candidate 1, candidate 2]"
    unfolding settled [THEN conjunct2] by (rule r)
  from h r e n st sn o re show ?thesis by blast
qed

text \<open>
  Claim C7, as the code has it. \<open>getAvailableVans\<close> returns the detected list when the
  detection has completed and found at least one van, and the list of the configuration
  otherwise: before the detection has completed, and also after a detection that found no
  van. After any completed detection it therefore returns the detected list unless that is
  empty. It leaves the manager as it was, so it issues no request.
\<close>

theorem getAvailableVans_result:
  "fst (getAvailableVans s) =
     (if vansDetected s \<and> availableVans s \<noteq> [] then availableVans s else vans_list)
   \<and> fst (getAvailableVans (snd (detectAvailableVans fetch s))) =
     (if fst (detectAvailableVans fetch s) \<noteq> [] then fst (detectAvailableVans fetch s) else vans_list)
   \<and> snd (getAvailableVans s) = s"
  using detect_done [of fetch s] by (simp add: getAvailableVans_def)

theorem getAvailableVans_result_witness:
  "fst (getAvailableVans (snd (detectAvailableVans fetch_two VanManager_init))) = [candidate 1, candidate 2]
   \<and> fst (getAvailableVans (snd (detectAvailableVans fetch_none VanManager_init))) = vans_list
   \<and> fst (getAvailableVans VanManager_init) = vans_list"
proof -
  have "fst (detectAvailableVans fetch_two VanManager_init) = [candidate 1, candidate 2]"
    by code_simp
  moreover have "fst (detectAvailableVans fetch_none VanManager_init) = []"
    by code_simp
  moreover have "\<not> vansDetected VanManager_init" by (simp add: VanManager_init_def)
  ultimately show ?thesis
    using getAvailableVans_result [of VanManager_init fetch_two]
      getAvailableVans_result [of VanManager_init fetch_none]
    by simp
qed

text \<open>
  Claim C7 as stated has the detected list returned whenever the detection has completed.
  When every check has failed the detection has completed with an empty list, and
  \<open>getAvailableVans\<close> returns the list of the configuration instead.
\<close>

theorem getAvailableVans_empty_probe_counterexample:
  "vansDetected (snd (detectAvailableVans fetch_none VanManager_init))
   \<and> fst (getAvailableVans (snd (detectAvailableVans fetch_none VanManager_init))) \<noteq>
       fst (detectAvailableVans fetch_none VanManager_init)"
proof -
  have "fst (detectAvailableVans fetch_none VanManager_init) = []"
    by code_simp
  then show ?thesis
    using detect_done [of fetch_none VanManager_init]
    by (simp add: getAvailableVans_def vans_list_def)
qed

section \<open>Wheel attachment\<close>

lemma fold_concat: "fold f (concat xss) s = fold (\<lambda>xs. fold f xs) xss s"
  by (induction xss arbitrary: s) simp_all

lemma traverse_nodes: "traverse callback obj s = fold callback (nodes obj) s"
proof (induction callback obj s rule: traverse.induct)
  case (1 callback n cs s)
  have "fold (traverse callback) cs t = fold (\<lambda>c. fold callback (nodes c)) cs t" for t
    by (rule fold_cong) (simp_all add: "1.IH" fun_eq_iff)
  then show ?case
    by (simp add: fold_concat fold_map comp_def)
qed

lemma fold_collect_null:
  "fold collect_null xs acc =
   acc @ filter (\<lambda>c. obj_name (node c) \<in> {''FL'', ''FR'', ''RL'', ''RR''}) xs"
  by (induction xs arbitrary: acc) (simp_all add: collect_null_def wheelPositions_def)

lemma foundNulls_eq: "traverse collect_null vanModel [] = mount_nodes vanModel"
  by (simp add: traverse_nodes fold_collect_null mount_nodes_def)

lemma fold_attach_wheel:
  "fold (attach_wheel wheel) nulls vanModel =
   Object3D (node vanModel) (children vanModel @ map (mounted wheel) nulls)"
  by (induction nulls arbitrary: vanModel)
     (simp_all add: attach_wheel_def add_def clone_def mounted_def)

lemma attach_some:
  assumes "wheelModel s = Some wheel"
  shows "attachWheelsToVan s vanModel =
    Object3D (node vanModel) (children vanModel @ map (mounted wheel) (mount_nodes vanModel))"
  using assms by (simp add: attachWheelsToVan_def foundNulls_eq fold_attach_wheel Let_def)

text \<open>
  Claim C9. Without a wheel model, and so after a wheel load that failed,
  \<open>attachWheelsToVan\<close> returns the van model as it is. With a wheel model and no mount
  node it does the same. With a wheel model and \<open>k\<close> mount nodes the van model keeps its
  own node and its children, followed by \<open>k\<close> new children: the \<open>k\<close>-th is a copy of
  the wheel that has the position, the rotation and the scale of the \<open>k\<close>-th mount node.
  The function returns a model in every case: it has no failure to pass on to the load.
\<close>

theorem attachWheelsToVan_mounts:
  "(wheelModel s = None \<longrightarrow> attachWheelsToVan s vanModel = vanModel)
   \<and> (result outcome = Inl e \<longrightarrow> attachWheelsToVan (loadWheelModel outcome s) vanModel = vanModel)
   \<and> (mount_nodes vanModel = [] \<longrightarrow> attachWheelsToVan s vanModel = vanModel)
   \<and> (wheelModel s = Some wheel \<longrightarrow>
        node (attachWheelsToVan s vanModel) = node vanModel
        \<and> length (children (attachWheelsToVan s vanModel)) =
            length (children vanModel) + length (mount_nodes vanModel)
        \<and> take (length (children vanModel)) (children (attachWheelsToVan s vanModel)) =
            children vanModel
        \<and> (\<forall>k < length (mount_nodes vanModel).
              obj_position (node (children (attachWheelsToVan s vanModel) ! (length (children vanModel) + k))) =
                obj_position (node (mount_nodes vanModel ! k))
            \<and> obj_rotation (node (children (attachWheelsToVan s vanModel) ! (length (children vanModel) + k))) =
                obj_rotation (node (mount_nodes vanModel ! k))
            \<and> obj_scale (node (children (attachWheelsToVan s vanModel) ! (length (children vanModel) + k))) =
                obj_scale (node (mount_nodes vanModel ! k))
            \<and> children (children (attachWheelsToVan s vanModel) ! (length (children vanModel) + k)) =
                children wheel
            \<and> obj_name (node (children (attachWheelsToVan s vanModel) ! (length (children vanModel) + k))) =
                obj_name (node wheel)))"
proof (intro conjI impI allI)
  assume "wheelModel s = None"
  then show "attachWheelsToVan s vanModel = vanModel"
    by (simp add: attachWheelsToVan_def)
next
  assume "result outcome = Inl e"
  then have "wheelModel (loadWheelModel outcome s) = None"
    by (simp add: loadWheelModel_def loadModel_def)
  then show "attachWheelsToVan (loadWheelModel outcome s) vanModel = vanModel"
    by (simp add: attachWheelsToVan_def)
next
  assume "mount_nodes vanModel = []"
  then show "attachWheelsToVan s vanModel = vanModel"
    by (simp add: attachWheelsToVan_def foundNulls_eq Let_def split: option.splits)
next
  assume w: "wheelModel s = Some wheel"
  show "node (attachWheelsToVan s vanModel) = node vanModel"
    by (simp add: attach_some [OF w])
  show "length (children (attachWheelsToVan s vanModel)) =
            length (children vanModel) + length (mount_nodes vanModel)"
    by (simp add: attach_some [OF w])
  show "take (length (children vanModel)) (children (attachWheelsToVan s vanModel)) =
            children vanModel"
    by (simp add: attach_some [OF w])
  fix k assume k: "k < length (mount_nodes vanModel)"
  then have nth: "children (attachWheelsToVan s vanModel) ! (length (children vanModel) + k) =
     mounted wheel (mount_nodes vanModel ! k)"
    by (simp add: attach_some [OF w] nth_append)
  show "obj_position (node (children (attachWheelsToVan s vanModel) ! (length (children vanModel) + k))) =
                obj_position (node (mount_nodes vanModel ! k))"
    by (simp add: nth mounted_def)
  show "obj_rotation (node (children (attachWheelsToVan s vanModel) ! (length (children vanModel) + k))) =
                obj_rotation (node (mount_nodes vanModel ! k))"
    by (simp add: nth mounted_def)
  show "obj_scale (node (children (attachWheelsToVan s vanModel) ! (length (children vanModel) + k))) =
                obj_scale (node (mount_nodes vanModel ! k))"
    by (simp add: nth mounted_def)
  show "children (children (attachWheelsToVan s vanModel) ! (length (children vanModel) + k)) =
                children wheel"
    by (simp add: nth mounted_def)
  show "obj_name (node (children (attachWheelsToVan s vanModel) ! (length (children vanModel) + k))) =
                obj_name (node wheel)"
    by (simp add: nth mounted_def)
qed


theorem attachWheelsToVan_mounts_witness:
  "length (mount_nodes demo_van) = 2
   \<and> length (children (attachWheelsToVan (VanManager_init\<lparr>wheelModel := Some demo_wheel\<rparr>) demo_van)) = 4
   \<and> obj_position (node (children (attachWheelsToVan (VanManager_init\<lparr>wheelModel := Some demo_wheel\<rparr>) demo_van) ! 2)) = (1, 0, 2)
   \<and> obj_position (node (children (attachWheelsToVan (VanManager_init\<lparr>wheelModel := Some demo_wheel\<rparr>) demo_van) ! 3)) = (- 1, 0, - 2)
   \<and> attachWheelsToVan VanManager_init demo_van = demo_van
   \<and> attachWheelsToVan (VanManager_init\<lparr>wheelModel := Some demo_wheel\<rparr>) demo_wheel = demo_wheel"
proof -
  have m: "mount_nodes demo_van = [Object3D (plain ''FL'' (1, 0, 2)) [], Object3D (plain ''RR'' (- 1, 0, - 2)) []]"
    by (simp add: mount_nodes_def demo_van_def plain_def mesh_def)
  have w: "mount_nodes demo_wheel = []"
    by (simp add: mount_nodes_def demo_wheel_def plain_def mesh_def)
  have c: "length (children demo_van) = 2" by (simp add: demo_van_def)
  have s: "wheelModel (VanManager_init\<lparr>wheelModel := Some demo_wheel\<rparr>) = Some demo_wheel" by simp
  have n: "wheelModel VanManager_init = None" by (simp add: VanManager_init_def)
  note some = attachWheelsToVan_mounts [where s = "VanManager_init\<lparr>wheelModel := Some demo_wheel\<rparr>"
      and vanModel = demo_van and wheel = demo_wheel,
      THEN conjunct2, THEN conjunct2, THEN conjunct2, THEN mp, OF s]
  note each = some [THEN conjunct2, THEN conjunct2, THEN conjunct2, THEN spec, THEN mp]
  have "0 < length (mount_nodes demo_van)" "1 < length (mount_nodes demo_van)"
    by (simp_all add: m)
  then show ?thesis
    using some each [of 0] each [of 1]
      attachWheelsToVan_mounts [where s = VanManager_init and vanModel = demo_van]
      attachWheelsToVan_mounts [where s = "VanManager_init\<lparr>wheelModel := Some demo_wheel\<rparr>"
        and vanModel = demo_wheel]
    by (simp add: m w c n plain_def)
qed

section \<open>Model metadata\<close>

lemma fold_count_geometry_error: "fold count_geometry xs (Inl e) = Inl e"
  by (induction xs) (simp_all add: count_geometry_def)

lemma count_geometry_counts:
  assumes "has_position c"
  shows "\<exists>v'. count_geometry c (Inr (p, v)) =
           Inr (foldl js_add p (map (\<lambda>k. js_div (of_nat k) 3) (mesh_count c)), v')"
  using assms
  by (auto simp: has_position_def count_geometry_def mesh_count_def split: option.splits)

lemma count_geometry_throws:
  assumes "\<not> has_position c"
  shows "count_geometry c (Inr pv) = Inl TypeError"
  using assms
  by (cases pv) (auto simp: has_position_def count_geometry_def split: option.splits if_splits)

lemma fold_count_geometry:
  assumes "list_all has_position xs"
  shows "\<exists>v'. fold count_geometry xs (Inr (p, v)) =
           Inr (foldl js_add p (map (\<lambda>k. js_div (of_nat k) 3) (concat (map mesh_count xs))), v')"
  using assms
proof (induction xs arbitrary: p v)
  case Nil
  then show ?case by simp
next
  case (Cons c xs)
  then have "has_position c" "list_all has_position xs" by simp_all
  from count_geometry_counts [OF this(1), of p v] obtain v1 where
    c: "count_geometry c (Inr (p, v)) =
          Inr (foldl js_add p (map (\<lambda>k. js_div (of_nat k) 3) (mesh_count c)), v1)"
    by blast
  from Cons.IH [OF \<open>list_all has_position xs\<close>,
      of "foldl js_add p (map (\<lambda>k. js_div (of_nat k) 3) (mesh_count c))" v1]
  show ?case by (simp add: c)
qed

lemma fold_count_geometry_throws:
  assumes "\<not> list_all has_position xs"
  shows "fold count_geometry xs (Inr pv) = Inl TypeError"
  using assms
proof (induction xs arbitrary: pv)
  case Nil
  then show ?case by simp
next
  case (Cons c xs)
  show ?case
  proof (cases "has_position c")
    case False
    then show ?thesis
      by (simp add: count_geometry_throws fold_count_geometry_error)
  next
    case True
    obtain p v where pv: "pv = (p, v)" by (cases pv)
    from count_geometry_counts [OF True, of p v] obtain q v1 where
      "count_geometry c (Inr pv) = Inr (q, v1)" unfolding pv by blast
    moreover from Cons.prems True have "\<not> list_all has_position xs" by simp
    ultimately show ?thesis by (simp add: Cons.IH)
  qed
qed

lemma polygonCount_thirds:
  assumes "has_positions m"
  shows "map_sum id polygonCount (getModelInfo m) = Inr (floored_thirds (mesh_counts m))"
proof -
  from assms have "list_all has_position (nodes m)" by (simp add: has_positions_def)
  from fold_count_geometry [OF this, of 0 0] obtain v where
    "traverse count_geometry m (Inr (0, 0)) =
       Inr (foldl js_add 0 (map (\<lambda>k. js_div (of_nat k) 3) (mesh_counts m)), v)"
    by (auto simp: traverse_nodes mesh_counts_def)
  then show ?thesis
    by (simp add: getModelInfo_def floored_thirds_def)
qed

lemma getModelInfo_throws:
  assumes "\<not> has_positions m"
  shows "getModelInfo m = Inl TypeError"
  using assms
  by (simp add: getModelInfo_def traverse_nodes has_positions_def fold_count_geometry_throws)


text \<open>
  Doubles hold the integers below \<open>2 ^ 53\<close> exactly. Hence for counts that are multiples of
  three, as those of whole triangles are, the sum computed in doubles is the exact one.
\<close>

lemma round_ties_even_int: "round_ties_even (of_int m) = m"
  by (simp add: round_ties_even_def)

lemma bitlen_1: "bitlen 1 = 1"
  by (simp add: bitlen_def floorlog_def)

lemma ilog2_int:
  assumes "0 < n"
  shows "ilog2 (of_int n) = bitlen n - 1"
proof -
  have q: "quotient_of (of_int n) = (n, 1)"
    by (metis Rat.of_int_def quotient_of_int)
  from assms have b: "1 \<le> bitlen n"
    using bitlen_eq_zero_iff [of n] bitlen_nonneg [of n] by linarith
  have "(2::int) ^ nat (bitlen n - 1) \<le> n"
    using bitlen_bounds [OF assms] by simp
  then have "(of_int ((2::int) ^ nat (bitlen n - 1)) :: rat) \<le> of_int n"
    by (simp only: of_int_le_iff)
  then have "(2::rat) ^ nat (bitlen n - 1) \<le> of_int n" by simp
  moreover have "(2::rat) powi (bitlen n - 1) = 2 ^ nat (bitlen n - 1)"
    using b by (simp add: power_int_def)
  ultimately show ?thesis
    by (simp add: ilog2_def q bitlen_1)
qed

lemma to_double_int:
  assumes "0 < n" "n < 2 ^ 53"
  shows "to_double (of_int n) = of_int n"
proof -
  define k where "k = bitlen n - 1"
  from assms have b: "1 \<le> bitlen n"
    using bitlen_eq_zero_iff [of n] bitlen_nonneg [of n] by linarith
  have "bitlen n \<le> 53"
    using assms bitlen_le_iff_power [of n 53] by simp
  with b have k: "0 \<le> k" "k \<le> 52" by (simp_all add: k_def)
  define j where "j = nat (52 - k)"
  have ulp: "(2::rat) powi (k - 52) = 1 / 2 ^ j"
    using k by (simp add: power_int_def j_def field_simps)
  have "of_int n * 2 ^ j = (of_int (n * 2 ^ j) :: rat)"
    by simp
  then have r: "round_ties_even (of_int n * 2 ^ j) = n * 2 ^ j"
    by (simp only: round_ties_even_int)
  have "\<bar>of_int n :: rat\<bar> = of_int n" using assms by simp
  then have "to_double (of_int n) = of_int (round_ties_even (of_int n / (1 / 2 ^ j))) * (1 / 2 ^ j)"
    using assms(1) by (simp add: to_double_def ilog2_int k_def [symmetric] ulp Let_def)
  also have "\<dots> = of_int n"
    by (simp add: r)
  finally show ?thesis .
qed

lemma to_double_nat: "n < 2 ^ 53 \<Longrightarrow> to_double (of_nat n) = of_nat n"
proof (cases "n = 0")
  case True
  then show ?thesis by (simp add: to_double_def)
next
  case False
  assume "n < 2 ^ 53"
  with False have "0 < int n" "int n < 2 ^ 53" by simp_all
  then have "to_double (of_int (int n)) = of_int (int n)" by (rule to_double_int)
  then show ?thesis by simp
qed

lemma js_div_three: "t < 2 ^ 53 \<Longrightarrow> js_div (of_nat (3 * t)) 3 = of_nat t"
  by (simp add: js_div_def to_double_nat)

lemma js_add_nat: "a + b < 2 ^ 53 \<Longrightarrow> js_add (of_nat a) (of_nat b) = of_nat (a + b)"
  using to_double_nat [of "a + b"] by (simp add: js_add_def)

lemma foldl_thirds_exact:
  "a + sum_list ts < 2 ^ 53 \<Longrightarrow>
   foldl js_add (of_nat a) (map (\<lambda>k. js_div (of_nat k) 3) (map (\<lambda>t. 3 * t) ts)) = of_nat (a + sum_list ts)"
proof (induction ts arbitrary: a)
  case Nil
  then show ?case by simp
next
  case (Cons t ts)
  from Cons.prems have t: "t < 2 ^ 53" and at: "a + t < 2 ^ 53" and rest: "(a + t) + sum_list ts < 2 ^ 53"
    by simp_all
  have "foldl js_add (of_nat a) (map (\<lambda>k. js_div (of_nat k) 3) (map (\<lambda>t. 3 * t) (t # ts)))
      = foldl js_add (js_add (of_nat a) (js_div (of_nat (3 * t)) 3))
          (map (\<lambda>k. js_div (of_nat k) 3) (map (\<lambda>t. 3 * t) ts))"
    by simp
  also have "js_add (of_nat a) (js_div (of_nat (3 * t)) 3) = of_nat (a + t)"
    by (simp only: js_div_three [OF t] js_add_nat [OF at])
  also have "foldl js_add (of_nat (a + t)) (map (\<lambda>k. js_div (of_nat k) 3) (map (\<lambda>t. 3 * t) ts))
      = of_nat ((a + t) + sum_list ts)"
    using rest by (rule Cons.IH)
  finally show ?case by (simp add: add.assoc)
qed


lemma sum_thirds_exact:
  "sum_list (map (\<lambda>k. of_nat k / 3) (map (\<lambda>t. 3 * t) ts)) = (of_nat (sum_list ts) :: rat)"
  by (induction ts) simp_all

lemma sum_list_triple: "sum_list (map (\<lambda>t. 3 * t) ts) = 3 * sum_list ts"
  for ts :: "nat list"
  by (induction ts) simp_all

lemma triples:
  fixes counts :: "nat list"
  assumes "\<forall>k \<in> set counts. 3 dvd k"
  shows "counts = map (\<lambda>t. 3 * t) (map (\<lambda>k. k div 3) counts)"
  using assms by (induction counts) auto

lemma thirds_exact:
  assumes "\<forall>k \<in> set counts. 3 dvd k" and "sum_list counts < 3 * 2 ^ 53"
  shows "floored_thirds counts = int (sum_list (map (\<lambda>k. k div 3) counts))"
    and "exact_thirds counts = int (sum_list (map (\<lambda>k. k div 3) counts))"
proof -
  let ?ts = "map (\<lambda>k. k div 3) counts"
  have c: "counts = map (\<lambda>t. 3 * t) ?ts" using assms(1) by (rule triples)
  have "sum_list (map (\<lambda>t. 3 * t) ?ts) = 3 * sum_list ?ts"
    by (rule sum_list_triple)
  with c assms(2) have small: "sum_list ?ts < 2 ^ 53" by simp
  have "foldl js_add (of_nat 0) (map (\<lambda>k. js_div (of_nat k) 3) (map (\<lambda>t. 3 * t) ?ts)) =
      of_nat (0 + sum_list ?ts)"
    using small by (intro foldl_thirds_exact) simp
  then have "floored_thirds (map (\<lambda>t. 3 * t) ?ts) = int (sum_list ?ts)"
    by (simp add: floored_thirds_def Math_floor_def)
  with c show "floored_thirds counts = int (sum_list ?ts)" by simp
  have "exact_thirds (map (\<lambda>t. 3 * t) ?ts) = int (sum_list ?ts)"
    unfolding exact_thirds_def sum_thirds_exact by simp
  with c show "exact_thirds counts = int (sum_list ?ts)" by simp
qed

lemma floored_thirds_300: "floored_thirds [300] = 100"
  using thirds_exact(1) [of "[300]"] by simp

lemma floored_thirds_300_600: "floored_thirds [300, 600] = 300"
  using thirds_exact(1) [of "[300, 600]"] by simp

text \<open>
  In general the sum is the one JavaScript computes: three meshes with 1, 4 and 1 elements
  give \<open>1.9999999999999998\<close>, hence the count 1, where exact arithmetic gives 2.
\<close>

lemma floored_thirds_rounding: "floored_thirds [1, 4, 1] = 1"
  by code_simp

text \<open>
  Claim C5, as the code has it. Let every mesh geometry of a scene graph have a position
  attribute. Then \<open>getModelInfo\<close> returns, and its polygon count is the floor of the sum,
  taken in double precision over the meshes in traversal order, of the count of the index
  divided by three for indexed geometry and of the count of the positions divided by three
  for unindexed geometry. When every such count is a multiple of three and their sum is
  below \<open>3 * 2 ^ 53\<close>, this is the floor of the exact sum, which is the sum of the thirds.
  A single mesh with an index of count 300 yields 100, and so does a single mesh without
  index and with 300 positions.
\<close>

theorem getModelInfo_polygonCount:
  "(has_positions m \<longrightarrow>
      map_sum id polygonCount (getModelInfo m) = Inr (floored_thirds (mesh_counts m)))
   \<and> (has_positions m \<and> (\<forall>k \<in> set (mesh_counts m). 3 dvd k)
        \<and> sum_list (mesh_counts m) < 3 * 2 ^ 53 \<longrightarrow>
      map_sum id polygonCount (getModelInfo m) = Inr (exact_thirds (mesh_counts m))
      \<and> exact_thirds (mesh_counts m) = int (sum_list (map (\<lambda>k. k div 3) (mesh_counts m))))
   \<and> (isMesh n \<and> geometry n = Some g \<and> index g = Some 300 \<and> position_count g = Some v \<longrightarrow>
        map_sum id polygonCount (getModelInfo (Object3D n [])) = Inr 100)
   \<and> (isMesh n \<and> geometry n = Some g \<and> index g = None \<and> position_count g = Some 300 \<longrightarrow>
        map_sum id polygonCount (getModelInfo (Object3D n [])) = Inr 100)"
proof (intro conjI impI)
  assume "has_positions m"
  then show "map_sum id polygonCount (getModelInfo m) = Inr (floored_thirds (mesh_counts m))"
    by (rule polygonCount_thirds)
next
  assume a: "has_positions m \<and> (\<forall>k \<in> set (mesh_counts m). 3 dvd k)
        \<and> sum_list (mesh_counts m) < 3 * 2 ^ 53"
  then have d: "\<forall>k \<in> set (mesh_counts m). 3 dvd k" and b: "sum_list (mesh_counts m) < 3 * 2 ^ 53"
    by blast+
  from a show "map_sum id polygonCount (getModelInfo m) = Inr (exact_thirds (mesh_counts m))"
    by (simp add: polygonCount_thirds thirds_exact [OF d b])
  show "exact_thirds (mesh_counts m) = int (sum_list (map (\<lambda>k. k div 3) (mesh_counts m)))"
    by (rule thirds_exact [OF d b])
next
  assume "isMesh n \<and> geometry n = Some g \<and> index g = Some 300 \<and> position_count g = Some v"
  then have "has_positions (Object3D n [])" "mesh_counts (Object3D n []) = [300]"
    by (simp_all add: has_positions_def has_position_def mesh_counts_def mesh_count_def)
  then show "map_sum id polygonCount (getModelInfo (Object3D n [])) = Inr 100"
    by (simp add: polygonCount_thirds floored_thirds_300)
next
  assume "isMesh n \<and> geometry n = Some g \<and> index g = None \<and> position_count g = Some 300"
  then have "has_positions (Object3D n [])" "mesh_counts (Object3D n []) = [300]"
    by (simp_all add: has_positions_def has_position_def mesh_counts_def mesh_count_def)
  then show "map_sum id polygonCount (getModelInfo (Object3D n [])) = Inr 100"
    by (simp add: polygonCount_thirds floored_thirds_300)
qed

theorem getModelInfo_polygonCount_witness:
  "has_positions two_meshes \<and> mesh_counts two_meshes = [300, 600]
   \<and> map_sum id polygonCount (getModelInfo two_meshes) = Inr 300
   \<and> map_sum id polygonCount (getModelInfo demo_van) = Inr 100
   \<and> map_sum id polygonCount
        (getModelInfo (Object3D (mesh ''m'' \<lparr>index = Some 300, position_count = Some 900\<rparr>) [])) = Inr 100
   \<and> map_sum id polygonCount
        (getModelInfo (Object3D (mesh ''m'' \<lparr>index = None, position_count = Some 300\<rparr>) [])) = Inr 100"
proof -
  have h: "has_positions two_meshes" "mesh_counts two_meshes = [300, 600]"
    by (simp_all add: has_positions_def has_position_def mesh_counts_def mesh_count_def
        two_meshes_def mesh_def plain_def)
  have v: "has_positions demo_van" "mesh_counts demo_van = [300]"
    by (simp_all add: has_positions_def has_position_def mesh_counts_def mesh_count_def
        demo_van_def mesh_def plain_def)
  have e: "exact_thirds [300, 600] = 300" "exact_thirds [300] = 100"
    by (simp_all add: exact_thirds_def)
  have m: "isMesh (mesh ''m'' g)" "geometry (mesh ''m'' g) = Some g" for g
    by (simp_all add: mesh_def)
  note f = floored_thirds_300_600 floored_thirds_300
  show ?thesis
    using h v e m f
      getModelInfo_polygonCount [where m = two_meshes
        and n = "mesh ''m'' \<lparr>index = Some 300, position_count = Some 900\<rparr>"
        and g = "\<lparr>index = Some 300, position_count = Some 900\<rparr>" and v = 900]
      getModelInfo_polygonCount [where m = demo_van
        and n = "mesh ''m'' \<lparr>index = None, position_count = Some 300\<rparr>"
        and g = "\<lparr>index = None, position_count = Some 300\<rparr>"]
    by simp
qed

text \<open>
  Claim C5 as stated, with the sum read in exact arithmetic, fails: for three unindexed
  meshes of 1, 4 and 1 positions the thirds add up to 2, and the polygon count is 1.
\<close>

theorem getModelInfo_exact_sum_counterexample:
  "has_positions odd_meshes \<and> mesh_counts odd_meshes = [1, 4, 1]
   \<and> map_sum id polygonCount (getModelInfo odd_meshes) = Inr 1
   \<and> exact_thirds (mesh_counts odd_meshes) = 2"
proof -
  have h: "has_positions odd_meshes" "mesh_counts odd_meshes = [1, 4, 1]"
    by (simp_all add: has_positions_def has_position_def mesh_counts_def mesh_count_def
        odd_meshes_def mesh_def plain_def)
  have e: "exact_thirds [1, 4, 1] = 2" by (simp add: exact_thirds_def)
  have "map_sum id polygonCount (getModelInfo odd_meshes) = Inr (floored_thirds (mesh_counts odd_meshes))"
    using h(1) by (rule polygonCount_thirds)
  then have "map_sum id polygonCount (getModelInfo odd_meshes) = Inr 1"
    by (simp only: h(2) floored_thirds_rounding)
  moreover have "exact_thirds (mesh_counts odd_meshes) = 2"
    by (simp only: h(2) e)
  ultimately show ?thesis using h by blast
qed

section \<open>Batch loading\<close>

lemma arg_min_list_least: "xs \<noteq> [] \<Longrightarrow> y \<in> set xs \<Longrightarrow> f (arg_min_list f xs) \<le> f y"
  for f :: "'a \<Rightarrow> nat"
  by (simp add: f_arg_min_list_f)

lemma Promise_all_rejects:
  assumes "p \<in> set ps" "isl (snd p)"
  shows "\<exists>q \<in> set ps. \<exists>e. snd q = Inl e \<and> Promise_all ps = Inl e
           \<and> (\<forall>r \<in> set ps. isl (snd r) \<longrightarrow> fst q \<le> fst r)"
proof -
  let ?rej = "filter (\<lambda>p. isl (snd p)) ps"
  let ?q = "arg_min_list fst ?rej"
  from assms have ne: "?rej \<noteq> []" by (auto simp: filter_empty_conv)
  then have "?q \<in> set ?rej" by (rule arg_min_list_in)
  then have q: "?q \<in> set ps" "isl (snd ?q)" by auto
  then obtain e where e: "snd ?q = Inl e" by (cases "snd ?q") auto
  have least: "fst ?q \<le> fst r" if "r \<in> set ps" "isl (snd r)" for r
  proof -
    from that have "r \<in> set ?rej" by simp
    with ne show ?thesis by (rule arg_min_list_least)
  qed
  have "Promise_all ps = Inl e"
    using ne e by (simp add: Promise_all_def)
  with least q e show ?thesis by blast
qed

lemma loadModel_fails: "isl (loadModel outcome opts) \<longleftrightarrow> isl (result outcome)"
  by (simp add: loadModel_def Let_def split: sum.splits)

lemma loadModel_error_iff: "loadModel outcome opts = Inl e \<longleftrightarrow> result outcome = Inl e"
  by (simp add: loadModel_def Let_def split: sum.splits)

lemma promises_nth:
  assumes "k < length modelConfigs"
  shows "map (\<lambda>(i, config). (fst (loader i), loadModel (snd (loader i)) (options config)))
                 (enumerate 0 modelConfigs) ! k
       = (fst (loader k), loadModel (snd (loader k)) (options (modelConfigs ! k)))"
  using assms by (simp add: nth_enumerate_eq)

text \<open>
  Claim C10. When the load of any one config of the batch fails, \<open>loadModels\<close> fails: its
  result is an error and no list of models, whatever the other loads deliver and whenever
  they settle. The error is that of a failed load of the batch, the one that settled first;
  when a single load fails it is the error of that load.
\<close>

theorem loadModels_all_or_nothing:
  assumes "i < length modelConfigs" and "result (snd (loader i)) = Inl e"
  shows "(\<exists>j < length modelConfigs. \<exists>e'.
           result (snd (loader j)) = Inl e'
         \<and> loadModels loader modelConfigs = Inl e'
         \<and> (\<forall>k < length modelConfigs. isl (result (snd (loader k))) \<longrightarrow> fst (loader j) \<le> fst (loader k)))
       \<and> ((\<forall>k < length modelConfigs. k \<noteq> i \<longrightarrow> \<not> isl (result (snd (loader k)))) \<longrightarrow>
            loadModels loader modelConfigs = Inl e)"
proof -
  define ps where "ps = map (\<lambda>(i, config). (fst (loader i), loadModel (snd (loader i)) (options config)))
                 (enumerate 0 modelConfigs)"
  have nth: "ps ! k = (fst (loader k), loadModel (snd (loader k)) (options (modelConfigs ! k)))"
    if "k < length modelConfigs" for k
    unfolding ps_def using that by (rule promises_nth)
  have len: "length ps = length modelConfigs" by (simp add: ps_def)
  have "ps ! i \<in> set ps" using assms(1) len by simp
  moreover have "isl (snd (ps ! i))"
    using assms by (simp add: nth loadModel_fails)
  ultimately obtain q e' where q: "q \<in> set ps" "snd q = Inl e'" "Promise_all ps = Inl e'"
      and least: "\<forall>r \<in> set ps. isl (snd r) \<longrightarrow> fst q \<le> fst r"
    using Promise_all_rejects [of "ps ! i" ps] by blast
  from q(1) obtain j where j: "j < length modelConfigs" "q = ps ! j"
    unfolding in_set_conv_nth len by blast
  have 1: "result (snd (loader j)) = Inl e'"
    using q(2) j by (simp add: nth loadModel_error_iff)
  have 2: "loadModels loader modelConfigs = Inl e'"
    using q(3) by (simp add: loadModels_def ps_def)
  have 3: "fst (loader j) \<le> fst (loader k)"
    if "k < length modelConfigs" "isl (result (snd (loader k)))" for k
  proof -
    have "ps ! k \<in> set ps" using that(1) len by simp
    moreover have "isl (snd (ps ! k))" using that by (simp add: nth loadModel_fails)
    ultimately have "fst q \<le> fst (ps ! k)" using least by blast
    then show ?thesis using j that(1) by (simp add: nth)
  qed
  have 4: "loadModels loader modelConfigs = Inl e"
    if only: "\<forall>k < length modelConfigs. k \<noteq> i \<longrightarrow> \<not> isl (result (snd (loader k)))"
  proof -
    have "isl (result (snd (loader j)))" using 1 by simp
    with only j(1) have "j = i" by blast
    with 1 assms(2) have "e' = e" by simp
    with 2 show ?thesis by simp
  qed
  from j(1) 1 2 3 4 show ?thesis by blast
qed

theorem loadModels_all_or_nothing_witness:
  "1 < length demo_requests \<and> result (snd (demo_loader 1)) = Inl (LoaderError ''404'')
   \<and> loadModels demo_loader demo_requests = Inl (LoaderError ''decode'')
   \<and> loadModels demo_loader (take 2 demo_requests) = Inl (LoaderError ''404'')"
proof -
  have h1: "1 < length demo_requests" by (simp add: demo_requests_def)
  have h2: "result (snd (demo_loader 1)) = Inl (LoaderError ''404'')" by (simp add: demo_loader_def)
  have h3: "1 < length (take 2 demo_requests)" by (simp add: demo_requests_def)
  have only: "\<forall>k < length (take 2 demo_requests). k \<noteq> 1 \<longrightarrow> \<not> isl (result (snd (demo_loader k)))"
    by (simp add: demo_requests_def demo_loader_def)
  have "loadModels demo_loader demo_requests = Inl (LoaderError ''decode'')"
    by code_simp
  then show ?thesis
    using h1 h2 only
      loadModels_all_or_nothing [where i = 1 and modelConfigs = demo_requests
        and loader = demo_loader and e = "LoaderError ''404''", OF h1 h2]
      loadModels_all_or_nothing [where i = 1 and modelConfigs = "take 2 demo_requests"
        and loader = demo_loader and e = "LoaderError ''404''", OF h3 h2]
    by simp
qed

section \<open>Visibility\<close>

lemma length_set_visible [simp]: "length (set_visible r b objs) = length objs"
  by (simp add: set_visible_def)

lemma visible_set_visible:
  "r' < length objs \<Longrightarrow>
   visible (node (set_visible r b objs ! r')) = (if r' = r then b else visible (node (objs ! r')))"
  by (simp add: set_visible_def nth_list_update)

lemma is_visible_show_current:
  "is_visible (show_current b s) r \<longleftrightarrow>
     (if currentVan s = Some r then b \<and> r < length (objects s) else is_visible s r)"
  by (cases "currentVan s") (auto simp: is_visible_def show_current_def visible_set_visible)

lemma show_current_fields [simp]:
  "vans (show_current b s) = vans s"
  "currentVan (show_current b s) = currentVan s"
  "length (objects (show_current b s)) = length (objects s)"
  "requests (show_current b s) = requests s"
  "availableVans (show_current b s) = availableVans s"
  "wheelModel (show_current b s) = wheelModel s"
  by (simp_all add: show_current_def split: option.splits)

lemma refs_ok_show_current [simp]: "refs_ok (show_current b s) = refs_ok s"
  by (simp add: refs_ok_def)

lemma vm_invD:
  "vm_inv s \<Longrightarrow> p \<in> set (vans s) \<Longrightarrow> is_visible s (model_ref (snd p)) \<Longrightarrow>
   currentVan s = Some (model_ref (snd p))"
  unfolding vm_inv_def by blast

lemma vm_invI:
  "refs_ok s \<Longrightarrow>
   (\<And>p. p \<in> set (vans s) \<Longrightarrow> is_visible s (model_ref (snd p)) \<Longrightarrow>
     currentVan s = Some (model_ref (snd p))) \<Longrightarrow> vm_inv s"
  unfolding vm_inv_def by blast

lemma vm_inv_refs_ok: "vm_inv s \<Longrightarrow> refs_ok s"
  unfolding vm_inv_def by blast

lemma vm_inv_show_current:
  assumes "vm_inv s"
  shows "vm_inv (show_current b s)"
proof (rule vm_invI)
  show "refs_ok (show_current b s)"
    using assms by (simp add: vm_inv_refs_ok)
next
  fix p
  assume p: "p \<in> set (vans (show_current b s))"
    and v: "is_visible (show_current b s) (model_ref (snd p))"
  show "currentVan (show_current b s) = Some (model_ref (snd p))"
  proof (cases "currentVan s = Some (model_ref (snd p))")
    case True
    then show ?thesis by simp
  next
    case False
    with v have "is_visible s (model_ref (snd p))"
      by (simp add: is_visible_show_current)
    moreover from p have "p \<in> set (vans s)" by simp
    ultimately have "currentVan s = Some (model_ref (snd p))"
      using assms by (intro vm_invD)
    with False show ?thesis by simp
  qed
qed

lemma switchToVan_inv:
  assumes ok: "refs_ok s"
    and cached: "map_of (vans s) truckId = Some truckData"
    and vis: "\<forall>p \<in> set (vans s). is_visible s (model_ref (snd p)) \<longrightarrow>
               currentVan s = Some (model_ref (snd p)) \<or> model_ref (snd p) = model_ref truckData"
  shows "vm_inv (snd (switchToVan truckId s))"
proof -
  have mem: "(truckId, truckData) \<in> set (vans s)"
    using cached by (rule map_of_SomeD)
  with ok have rng: "model_ref truckData < length (objects s)"
    by (auto simp: refs_ok_def)
  let ?s' = "snd (switchToVan truckId s)"
  have flds: "vans ?s' = vans s" "currentVan ?s' = Some (model_ref truckData)"
    "length (objects ?s') = length (objects s)"
    by (simp_all add: switchToVan_def cached Let_def)
  have visible': "is_visible ?s' r \<longleftrightarrow>
      r < length (objects s) \<and> (r = model_ref truckData \<or> (is_visible s r \<and> currentVan s \<noteq> Some r))" for r
  proof -
    let ?s1 = "show_current False s"
    have "is_visible ?s' r \<longleftrightarrow>
        r < length (objects s) \<and> (r = model_ref truckData \<or> is_visible ?s1 r)"
      by (auto simp: switchToVan_def cached Let_def is_visible_def visible_set_visible)
    moreover have "is_visible s r \<longrightarrow> r < length (objects s)"
      by (simp add: is_visible_def)
    ultimately show ?thesis
      unfolding is_visible_show_current by auto
  qed
  have "refs_ok ?s'"
    using ok rng by (simp add: refs_ok_def flds)
  moreover have "currentVan ?s' = Some (model_ref (snd p))"
    if p: "p \<in> set (vans ?s')" and v: "is_visible ?s' (model_ref (snd p))" for p
  proof (cases "model_ref (snd p) = model_ref truckData")
    case True
    then show ?thesis by (simp add: flds)
  next
    case False
    with v have old: "is_visible s (model_ref (snd p))" "currentVan s \<noteq> Some (model_ref (snd p))"
      by (simp_all add: visible')
    from p have "p \<in> set (vans s)" by (simp add: flds)
    with vis old(1) have "currentVan s = Some (model_ref (snd p)) \<or> model_ref (snd p) = model_ref truckData"
      by blast
    with old(2) False show ?thesis by blast
  qed
  ultimately show ?thesis by (rule vm_invI)
qed

lemma update_set: "set (AList.update k v al) \<subseteq> insert (k, v) (set al)"
  by (induction al) auto

lemma update_distinct_refs:
  assumes "distinct (map f al)" "f (k, v) \<notin> f ` set al"
  shows "distinct (map f (AList.update k v al))"
  using assms
proof (induction al)
  case Nil
  then show ?case by simp
next
  case (Cons a al)
  obtain k' v' where a: "a = (k', v')" by (cases a)
  show ?case
  proof (cases "k' = k")
    case True
    with Cons.prems a show ?thesis by auto
  next
    case False
    have "f a \<notin> f ` set (AList.update k v al)"
      using Cons.prems update_set [of k v al] by auto
    with False Cons a show ?thesis by auto
  qed
qed


lemma vm_inv_cong:
  "vans s' = vans s \<Longrightarrow> objects s' = objects s \<Longrightarrow> currentVan s' = currentVan s \<Longrightarrow>
   vm_inv s' = vm_inv s"
  by (simp add: vm_inv_def refs_ok_def is_visible_def)

lemma loadVan_start_inv:
  assumes "vm_inv s"
  shows "vm_inv (snd (loadVan_start truckId s))"
proof -
  let ?s1 = "show_current False s"
  have inv1: "vm_inv ?s1" using assms by (rule vm_inv_show_current)
  show ?thesis
  proof (cases "map_of (vans ?s1) truckId")
    case None
    have req: "vm_inv (?s1\<lparr>requests := rs\<rparr>)" for rs
      using inv1 vm_inv_cong [of "?s1\<lparr>requests := rs\<rparr>" ?s1] by simp
    show ?thesis
    proof (cases "find_config truckId ?s1")
      case None
      with \<open>map_of (vans ?s1) truckId = None\<close> have "snd (loadVan_start truckId s) = ?s1"
        by (simp add: loadVan_start_def Let_def)
      with inv1 show ?thesis by simp
    next
      case (Some truckConfig)
      with \<open>map_of (vans ?s1) truckId = None\<close>
      have "snd (loadVan_start truckId s) = ?s1\<lparr>requests := requests ?s1 @ [GET (truckPath truckConfig)]\<rparr>"
        by (simp add: loadVan_start_def Let_def)
      with req show ?thesis by simp
    qed
  next
    case (Some truckData)
    then have "snd (loadVan_start truckId s) = snd (switchToVan truckId ?s1)"
        by (simp add: loadVan_start_def Let_def split: prod.splits)
    moreover have "vm_inv (snd (switchToVan truckId ?s1))"
    proof (rule switchToVan_inv [OF _ Some])
      show "refs_ok ?s1" using inv1 by (rule vm_inv_refs_ok)
      show "\<forall>p\<in>set (vans ?s1). is_visible ?s1 (model_ref (snd p)) \<longrightarrow>
         currentVan ?s1 = Some (model_ref (snd p)) \<or> model_ref (snd p) = model_ref truckData"
        using inv1 unfolding vm_inv_def by blast
    qed
    ultimately show ?thesis by simp
  qed
qed


lemma switchToVan_cached:
  "map_of (vans s) truckId = Some truckData \<Longrightarrow> fst (switchToVan truckId s) = Inr truckData"
  by (simp add: switchToVan_def Let_def)

lemma loadVan_catch_inv: "vm_inv s \<Longrightarrow> vm_inv (snd (loadVan_catch e s))"
  by (simp add: loadVan_catch_def vm_inv_show_current)

lemma loadVan_settle_failed:
  assumes "loadModel outcome (truck_options (pending_truckConfig k)) = Inl e"
  shows "loadVan_settle k outcome s = (Inl e, show_current True s)"
  using assms by (simp add: loadVan_settle_def loadVan_catch_def)

lemma loadVan_settle_throws:
  assumes "loadModel outcome (truck_options (pending_truckConfig k)) = Inr truckData"
    and "getModelInfo (attachWheelsToVan s (model truckData)) = Inl e"
  shows "loadVan_settle k outcome s = (Inl e, show_current True s)"
  using assms by (simp add: loadVan_settle_def loadVan_catch_def)

lemma loadVan_settle_stored:
  assumes "loadModel outcome (truck_options (pending_truckConfig k)) = Inr truckData"
    and "getModelInfo (attachWheelsToVan s (model truckData)) = Inr modelInfo"
  shows "loadVan_settle k outcome s =
    (Inr \<lparr>model_ref = length (objects s), config = pending_truckConfig k,
          entry_animations = animations truckData, info = modelInfo\<rparr>,
     snd (switchToVan (pending_truckId k)
       (s\<lparr>objects := objects s @ [attachWheelsToVan s (model truckData)],
          vans := AList.update (pending_truckId k)
            \<lparr>model_ref = length (objects s), config = pending_truckConfig k,
             entry_animations = animations truckData, info = modelInfo\<rparr> (vans s)\<rparr>)))"
proof -
  define entry where "entry = \<lparr>model_ref = length (objects s), config = pending_truckConfig k,
          entry_animations = animations truckData, info = modelInfo\<rparr>"
  define s1 where "s1 = s\<lparr>objects := objects s @ [attachWheelsToVan s (model truckData)],
          vans := AList.update (pending_truckId k) entry (vans s)\<rparr>"
  have "map_of (vans s1) (pending_truckId k) = Some entry"
    by (simp add: s1_def update_conv')
  then obtain s2 where sw: "switchToVan (pending_truckId k) s1 = (Inr entry, s2)"
    using switchToVan_cached [of s1 "pending_truckId k" entry]
    by (cases "switchToVan (pending_truckId k) s1") simp
  have "loadVan_settle k outcome s = (Inr entry, s2)"
    unfolding loadVan_settle_def Let_def assms(1) sum.case assms(2)
    by (simp add: entry_def [symmetric] s1_def [symmetric] sw)
  then show ?thesis
    by (simp add: entry_def [symmetric] s1_def [symmetric] sw)
qed

lemma loadVan_settle_inv:
  assumes inv: "vm_inv s"
  shows "vm_inv (snd (loadVan_settle k outcome s))"
proof (cases "loadModel outcome (truck_options (pending_truckConfig k))")
  case (Inl e)
  with inv show ?thesis
    by (simp add: loadVan_settle_failed vm_inv_show_current)
next
  case (Inr truckData)
  define vanModel where "vanModel = attachWheelsToVan s (model truckData)"
  show ?thesis
  proof (cases "getModelInfo vanModel")
    case (Inl e)
    with inv Inr show ?thesis
      by (simp add: loadVan_settle_throws vanModel_def vm_inv_show_current)
  next
    case modelInfo: (Inr modelInfo)
  define truckId where "truckId = pending_truckId k"
  define entry where "entry = \<lparr>model_ref = length (objects s), config = pending_truckConfig k,
      entry_animations = animations truckData, info = modelInfo\<rparr>"
  define s1 where "s1 = s\<lparr>objects := objects s @ [vanModel],
      vans := AList.update truckId entry (vans s)\<rparr>"
  have ref: "model_ref entry = length (objects s)" by (simp add: entry_def)
  have s1: "objects s1 = objects s @ [vanModel]" "vans s1 = AList.update truckId entry (vans s)"
    "currentVan s1 = currentVan s"
    by (simp_all add: s1_def)
  have cached: "map_of (vans s1) truckId = Some entry"
    by (simp add: s1 update_conv')
  have ok: "refs_ok s" using inv by (rule vm_inv_refs_ok)
  have old: "model_ref (snd p) < length (objects s)" if "p \<in> set (vans s)" for p
    using ok that unfolding refs_ok_def by blast
  have mem: "p = (truckId, entry) \<or> p \<in> set (vans s)" if "p \<in> set (vans s1)" for p
    using that update_set [of truckId entry "vans s"] by (auto simp: s1)
  have "model_ref (snd (truckId, entry)) \<notin> (\<lambda>p. model_ref (snd p)) ` set (vans s)"
  proof
    assume "model_ref (snd (truckId, entry)) \<in> (\<lambda>p. model_ref (snd p)) ` set (vans s)"
    then obtain p where "p \<in> set (vans s)" "model_ref (snd p) = length (objects s)"
      by (auto simp: ref)
    with old [of p] show False by simp
  qed
  moreover have "distinct (map (\<lambda>p. model_ref (snd p)) (vans s))"
    using ok unfolding refs_ok_def by blast
  ultimately have d: "distinct (map (\<lambda>p. model_ref (snd p)) (vans s1))"
    unfolding s1 by (intro update_distinct_refs)
  have rng: "model_ref (snd p) < length (objects s1)" if "p \<in> set (vans s1)" for p
    using mem [OF that] old [of p] by (auto simp: s1 ref)
  have cur: "r < length (objects s1)" if "currentVan s1 = Some r" for r
    using ok that unfolding refs_ok_def by (auto simp: s1)
  have ok1: "refs_ok s1"
    unfolding refs_ok_def using d rng cur by blast
  have vis: "\<forall>p \<in> set (vans s1). is_visible s1 (model_ref (snd p)) \<longrightarrow>
       currentVan s1 = Some (model_ref (snd p)) \<or> model_ref (snd p) = model_ref entry"
  proof (intro ballI impI)
    fix p assume p: "p \<in> set (vans s1)" and v: "is_visible s1 (model_ref (snd p))"
    from mem [OF p] show "currentVan s1 = Some (model_ref (snd p)) \<or> model_ref (snd p) = model_ref entry"
    proof
      assume "p = (truckId, entry)"
      then show ?thesis by simp
    next
      assume m: "p \<in> set (vans s)"
      with old have "model_ref (snd p) < length (objects s)" by blast
      with v have "is_visible s (model_ref (snd p))"
        by (simp add: is_visible_def s1 nth_append)
      with inv m have "currentVan s = Some (model_ref (snd p))" by (intro vm_invD)
      then show ?thesis by (simp add: s1)
    qed
  qed
  have inv2: "vm_inv (snd (switchToVan truckId s1))"
    using ok1 cached vis by (rule switchToVan_inv)
  have "snd (loadVan_settle k outcome s) = snd (switchToVan truckId s1)"
    using loadVan_settle_stored [OF Inr, of s modelInfo] modelInfo
    by (simp add: vanModel_def truckId_def entry_def s1_def)
  with inv2 show ?thesis by simp
  qed
qed

lemma detect_inv: "vm_inv s \<Longrightarrow> vm_inv (snd (detectAvailableVans fetch s))"
proof (cases "vansDetected s")
  case True
  assume "vm_inv s"
  with True show ?thesis by (simp add: detectAvailableVans_def)
next
  case False
  assume "vm_inv s"
  then show ?thesis
    unfolding detect_first [OF False] snd_conv
    by (subst vm_inv_cong [where s = s]) simp_all
qed

lemma wheel_inv: "vm_inv s \<Longrightarrow> vm_inv (loadWheelModel outcome s)"
  by (subst vm_inv_cong [where s = s]) (simp_all add: loadWheelModel_def split: sum.splits)

lemma init_inv: "vm_inv VanManager_init"
  by (simp add: vm_inv_def refs_ok_def VanManager_init_def)

lemma step_inv:
  assumes "vm_inv (fst sys)"
  shows "vm_inv (fst (step sys ev))"
proof -
  obtain s ps where sys: "sys = (s, ps)" by (cases sys)
  with assms have inv: "vm_inv s" by simp
  show ?thesis
  proof (cases ev)
    case (Call truckId)
    have "fst (step sys ev) = snd (loadVan_start truckId s)"
      by (simp add: sys Call split: prod.splits started.splits)
    with inv show ?thesis by (simp add: loadVan_start_inv)
  next
    case (Settle i outcome)
    with inv show ?thesis by (simp add: sys loadVan_settle_inv)
  next
    case (Detect fetch)
    with inv show ?thesis by (simp add: sys detect_inv)
  next
    case (WheelSettled outcome)
    with inv show ?thesis by (simp add: sys wheel_inv)
  qed
qed

lemma foldl_step_inv: "vm_inv (fst sys) \<Longrightarrow> vm_inv (fst (foldl step sys evs))"
  by (induction evs arbitrary: sys) (simp_all add: step_inv)

lemma run_inv: "vm_inv (fst (run evs))"
  unfolding run_def by (rule foldl_step_inv) (simp add: init_inv)

lemma filter_at_most_one:
  assumes "distinct (map f xs)" and "\<And>x. x \<in> set xs \<Longrightarrow> P x \<Longrightarrow> f x = a"
  shows "length (filter P xs) \<le> 1"
  using assms
proof (induction xs)
  case Nil
  then show ?case by simp
next
  case (Cons x xs)
  show ?case
  proof (cases "P x")
    case True
    with Cons.prems(2) have "f x = a" by simp
    have "\<not> P y" if "y \<in> set xs" for y
    proof
      assume "P y"
      with that Cons.prems(2) have "f y = a" by simp
      with \<open>f x = a\<close> that Cons.prems(1) show False by (auto simp: image_iff)
    qed
    then have "filter P xs = []" by (simp add: filter_empty_conv)
    with True show ?thesis by simp
  next
    case False
    with Cons show ?thesis by simp
  qed
qed

lemma vm_inv_at_most_one:
  assumes "vm_inv s"
  shows "length (visibleEntries s) \<le> 1"
proof (cases "currentVan s")
  case None
  have "\<not> is_visible s (model_ref (snd p))" if "p \<in> set (vans s)" for p
    using vm_invD [OF assms that] None by auto
  then have "visibleEntries s = []"
    by (auto simp: visibleEntries_def filter_empty_conv)
  then show ?thesis by simp
next
  case (Some r)
  have "distinct (map (\<lambda>p. model_ref (snd p)) (vans s))"
    using assms unfolding vm_inv_def refs_ok_def by blast
  moreover have "model_ref (snd p) = r"
    if "p \<in> set (vans s)" "case p of (truckId, e) \<Rightarrow> is_visible s (model_ref e)" for p
    using vm_invD [OF assms that(1)] that(2) Some by (auto split: prod.splits)
  ultimately show ?thesis
    unfolding visibleEntries_def by (rule filter_at_most_one)
qed

text \<open>
  Claim C1. Start from a new manager and let calls of \<open>loadVan\<close>, the completions of
  their loads with any outcome and in any order, the completion of the detection and that of
  the wheel load follow one another in any way, a later call possibly starting before the
  load of an earlier one has settled. In the state after each event at most one entry of the
  cache has a visible model.
\<close>

theorem at_most_one_visible: "length (visibleEntries (fst (run evs))) \<le> 1"
  by (rule vm_inv_at_most_one) (rule run_inv)

theorem at_most_one_visible_witness:
  "length (visibleEntries (fst (run demo_events))) \<le> 1
   \<and> map fst (visibleEntries (fst (run demo_events))) = [''van-001'']
   \<and> map fst (vans (fst (run demo_events))) = [''van-002'', ''van-001'']"
proof -
  have "map fst (visibleEntries (fst (run demo_events))) = [''van-001'']"
    by code_simp
  moreover have "map fst (vans (fst (run demo_events))) = [''van-002'', ''van-001'']"
    by code_simp
  ultimately show ?thesis
    using at_most_one_visible [of demo_events] by simp
qed

text \<open>
  Claim C2 fails on the code. With van 1 loaded and visible, a call of \<open>loadVan\<close> for the
  id \<open>van-999\<close>, which is neither cached nor in either list, throws the not-found error
  and leaves van 1 hidden: no entry is visible afterwards. The current van is hidden before
  the lookup, and the error is thrown outside the \<open>try\<close> block whose handler would show it
  again.
\<close>

theorem loadVan_not_found_hides_current:
  "map fst (visibleEntries van_001_loaded) = [''van-001'']
   \<and> map_of (vans van_001_loaded) ''van-999'' = None
   \<and> find_config ''van-999'' van_001_loaded = None
   \<and> fst (loadVan failed_outcome ''van-999'' van_001_loaded) = Inl (NotFound ''van-999'')
   \<and> visibleEntries (snd (loadVan failed_outcome ''van-999'' van_001_loaded)) = []"
  by code_simp








end
